theory Spec2Isabelle
  imports Complex_Main "HOL-Library.Word"
begin

chapter \<open>Device-side tensor operators: linear post-ops, triangular masks, LU, concatenation\<close>

section \<open>Linear.cpp: the linear operator family and its post-ops\<close>

subsection \<open>Data model\<close>

text \<open>
  The linear entry points never look inside a tensor: they build a post-op attribute,
  hand everything to the fused-matmul service and, on some paths, apply a fallback
  operator to the returned tensor. A tensor is therefore modelled by what these
  operators can observe: whether it is defined, its shape and its logical elements in
  row-major order. Scalars (\<open>at::Scalar\<close>, \<open>float\<close>) are modelled as reals;
  \<open>toFloat\<close> is the identity, so rounding is not part of the model.
\<close>

record VTensor =
  defined :: bool
  sizes :: "nat list"
  elems :: "real list"

definition undefined_tensor :: VTensor where
  "undefined_tensor = \<lparr>defined = False, sizes = [], elems = []\<rparr>"

definition dim :: "VTensor \<Rightarrow> nat" where
  "dim t = length (sizes t)"

text \<open>\<open>Tensor::contiguous()\<close> changes the memory layout only, never a logical element.\<close>

definition contiguous :: "VTensor \<Rightarrow> VTensor" where
  "contiguous t = t"

text \<open>The algorithm kinds that Linear.cpp names (\<open>attr.kind_with_...\<close>).\<close>

datatype algorithm =
    kind_with_sqrt | kind_with_abs | kind_with_tanh | kind_with_square | kind_with_exp
  | kind_with_log | kind_with_round | kind_with_sigmoid | kind_with_relu
  | kind_with_hardswish | kind_with_mish | kind_with_log_sigmoid | kind_with_swish
  | kind_with_linear | kind_with_hardsigmoid | kind_with_pow | kind_with_clip
  | kind_with_elu | kind_with_gelu_erf | kind_with_gelu_tanh
  | kind_with_binary_add | kind_with_binary_mul | kind_with_binary_div
  | kind_with_binary_min | kind_with_binary_max | kind_with_binary_eq
  | kind_with_binary_ne | kind_with_binary_ge | kind_with_binary_gt
  | kind_with_binary_le | kind_with_binary_lt

text \<open>
  Modelled from the spec: the class \<open>Attr\<close> (its header is not among the sources). A
  PostOpAttribute is an ordered sequence of records, each either an elementwise record
  (algorithm, scale, alpha, beta) or a binary record (algorithm, operand tensor, scale);
  an append adds exactly one record, in call order.
\<close>

datatype post_op =
    Eltwise real real real algorithm
  | Binary algorithm VTensor real

type_synonym Attr = "post_op list"

definition append_post_eltwise :: "real \<Rightarrow> real \<Rightarrow> real \<Rightarrow> algorithm \<Rightarrow> Attr \<Rightarrow> Attr" where
  "append_post_eltwise scale alpha beta algo attr = attr @ [Eltwise scale alpha beta algo]"

definition append_scale_binary :: "algorithm \<Rightarrow> VTensor \<Rightarrow> real \<Rightarrow> Attr \<Rightarrow> Attr" where
  "append_scale_binary algo binary scale attr = attr @ [Binary algo binary scale]"

text \<open>
  The fused-matmul service \<open>matmul_fusion_variants(input, weight, trans, attr,
  is_fused, bias)\<close> is an external collaborator: it is a parameter of every entry
  point below. It returns the result tensor and the value it stores into the
  \<open>is_fused\<close> reference.
\<close>

type_synonym fused_matmul = "VTensor \<Rightarrow> VTensor \<Rightarrow> bool \<Rightarrow> Attr \<Rightarrow> VTensor \<Rightarrow> VTensor \<times> bool"

datatype linear_error = InternalAssert string

subsection \<open>LinearConverter\<close>

record LinearConverter =
  is_fused_field :: bool

definition new_LinearConverter :: LinearConverter where
  "new_LinearConverter = \<lparr>is_fused_field = False\<rparr>"

text \<open>
  \<open>LinearConverter::call\<close>: evaluates the attribute, normalises bias and input, calls
  the service and keeps the service's flag in the wrapper. The model returns the tensor
  together with the updated wrapper.
\<close>

definition call ::
  "fused_matmul \<Rightarrow> LinearConverter \<Rightarrow> VTensor \<Rightarrow> VTensor \<Rightarrow> VTensor \<Rightarrow> Attr
     \<Rightarrow> VTensor \<times> LinearConverter" where
  "call svc wrapper input weight bias attr =
     (let bias' = (if defined bias then bias else undefined_tensor);
          input' = (if dim input \<le> 2 then input else contiguous input);
          (out, fused) = svc input' weight False attr bias'
      in (out, wrapper\<lparr>is_fused_field := fused\<rparr>))"

definition is_fused :: "LinearConverter \<Rightarrow> bool" where
  "is_fused wrapper = is_fused_field wrapper"

subsection \<open>Entry points with an elementwise post-op\<close>

text \<open>
  The macro \<open>IPEX_LINEAR_DEFINATION(func)\<close>, with the algorithm kind it pastes as a
  parameter: \<open>linear_relu = IPEX_LINEAR_DEFINATION kind_with_relu\<close> and so on.
\<close>

definition IPEX_LINEAR_DEFINATION ::
  "algorithm \<Rightarrow> fused_matmul \<Rightarrow> VTensor \<Rightarrow> VTensor \<Rightarrow> VTensor \<Rightarrow> VTensor" where
  "IPEX_LINEAR_DEFINATION kind svc input weight bias =
     (let linear_wrapper = new_LinearConverter;
          post_op = append_post_eltwise 1 0 0 kind []
      in fst (call svc linear_wrapper input weight bias post_op))"

definition linear_relu :: "fused_matmul \<Rightarrow> VTensor \<Rightarrow> VTensor \<Rightarrow> VTensor \<Rightarrow> VTensor" where
  "linear_relu = IPEX_LINEAR_DEFINATION kind_with_relu"

definition linear_silu :: "fused_matmul \<Rightarrow> VTensor \<Rightarrow> VTensor \<Rightarrow> VTensor \<Rightarrow> VTensor" where
  "linear_silu svc input weight bias =
     (let linear_wrapper = new_LinearConverter;
          post_op = append_post_eltwise 1 1 0 kind_with_swish []
      in fst (call svc linear_wrapper input weight bias post_op))"

definition linear_scalar_mul ::
  "fused_matmul \<Rightarrow> VTensor \<Rightarrow> VTensor \<Rightarrow> VTensor \<Rightarrow> real \<Rightarrow> VTensor" where
  "linear_scalar_mul svc input weight bias scalar =
     (let linear_wrapper = new_LinearConverter;
          post_op = append_post_eltwise 1 scalar 0 kind_with_linear []
      in fst (call svc linear_wrapper input weight bias post_op))"

text \<open>
  \<open>linear_scalar_div\<close>: the \<open>TORCH_INTERNAL_ASSERT\<close> is the first statement, before the
  wrapper and the attribute exist.
\<close>

definition linear_scalar_div ::
  "fused_matmul \<Rightarrow> VTensor \<Rightarrow> VTensor \<Rightarrow> VTensor \<Rightarrow> real \<Rightarrow> linear_error + VTensor" where
  "linear_scalar_div svc input weight bias scalar =
     (if \<not> (scalar \<noteq> 0) then Inl (InternalAssert ''div zero in linear_scalar_div'')
      else
        let linear_wrapper = new_LinearConverter;
            post_op = append_post_eltwise 1 (1 / scalar) 0 kind_with_linear []
        in Inr (fst (call svc linear_wrapper input weight bias post_op)))"

definition linear_scalar_add ::
  "fused_matmul \<Rightarrow> VTensor \<Rightarrow> VTensor \<Rightarrow> VTensor \<Rightarrow> real \<Rightarrow> real \<Rightarrow> VTensor" where
  "linear_scalar_add svc input weight bias scalar scale =
     (let linear_wrapper = new_LinearConverter;
          post_op = append_post_eltwise 1 1 (scalar * scale) kind_with_linear []
      in fst (call svc linear_wrapper input weight bias post_op))"

definition linear_scalar_sub ::
  "fused_matmul \<Rightarrow> VTensor \<Rightarrow> VTensor \<Rightarrow> VTensor \<Rightarrow> real \<Rightarrow> real \<Rightarrow> VTensor" where
  "linear_scalar_sub svc input weight bias scalar scale =
     linear_scalar_add svc input weight bias scalar (- scale)"

definition linear_hardsigmoid :: "fused_matmul \<Rightarrow> VTensor \<Rightarrow> VTensor \<Rightarrow> VTensor \<Rightarrow> VTensor" where
  "linear_hardsigmoid svc input weight bias =
     (let linear_wrapper = new_LinearConverter;
          post_op = append_post_eltwise 1 (1 / 6) (1 / 2) kind_with_hardsigmoid []
      in fst (call svc linear_wrapper input weight bias post_op))"

definition linear_pow ::
  "fused_matmul \<Rightarrow> VTensor \<Rightarrow> VTensor \<Rightarrow> VTensor \<Rightarrow> real \<Rightarrow> VTensor" where
  "linear_pow svc input weight bias exponent =
     (let linear_wrapper = new_LinearConverter;
          post_op = append_post_eltwise 1 1 exponent kind_with_pow []
      in fst (call svc linear_wrapper input weight bias post_op))"

definition linear_leaky_relu ::
  "fused_matmul \<Rightarrow> VTensor \<Rightarrow> VTensor \<Rightarrow> VTensor \<Rightarrow> real \<Rightarrow> VTensor" where
  "linear_leaky_relu svc input weight bias negative_slope =
     (let linear_wrapper = new_LinearConverter;
          post_op = append_post_eltwise 1 negative_slope 0 kind_with_relu []
      in fst (call svc linear_wrapper input weight bias post_op))"

definition linear_hardtanh ::
  "fused_matmul \<Rightarrow> VTensor \<Rightarrow> VTensor \<Rightarrow> VTensor \<Rightarrow> real \<Rightarrow> real \<Rightarrow> VTensor" where
  "linear_hardtanh svc input weight bias minval maxval =
     (let linear_wrapper = new_LinearConverter;
          post_op = append_post_eltwise 1 minval maxval kind_with_clip []
      in fst (call svc linear_wrapper input weight bias post_op))"

definition linear_elu ::
  "fused_matmul \<Rightarrow> VTensor \<Rightarrow> VTensor \<Rightarrow> VTensor \<Rightarrow> real \<Rightarrow> real \<Rightarrow> real \<Rightarrow> VTensor" where
  "linear_elu svc input weight bias alpha scale input_scale =
     (let linear_wrapper = new_LinearConverter;
          post_op = append_post_eltwise 1 alpha 1 kind_with_elu []
      in fst (call svc linear_wrapper input weight bias post_op))"

subsection \<open>Entry points with a binary post-op\<close>

text \<open>
  \<open>at::AtenIpexTypeXPU::add(self, other, alpha)\<close> is the framework's scaled addition,
  \<open>self + alpha * other\<close> on every element; it is defined outside Linear.cpp and is
  modelled here for operands of one shape.
\<close>

definition add_tensor :: "VTensor \<Rightarrow> VTensor \<Rightarrow> real \<Rightarrow> VTensor" where
  "add_tensor self other alpha =
     self\<lparr>elems := map2 (\<lambda>x y. x + alpha * y) (elems self) (elems other)\<rparr>"

text \<open>
  \<open>linear_sum\<close>: \<open>result = input * weight + bias + alpha * accumul\<close>. The local
  \<open>output_sizes\<close> is computed and never used; it is left out.
\<close>

definition linear_sum ::
  "fused_matmul \<Rightarrow> VTensor \<Rightarrow> VTensor \<Rightarrow> VTensor \<Rightarrow> VTensor \<Rightarrow> real \<Rightarrow> VTensor" where
  "linear_sum svc input weight bias accumul alpha =
     (let post_op = append_scale_binary kind_with_binary_add accumul alpha [];
          linear_wrapper = new_LinearConverter;
          (output, linear_wrapper) = call svc linear_wrapper input weight bias post_op
      in if \<not> is_fused linear_wrapper then add_tensor output accumul alpha else output)"

definition linear_binary_sub ::
  "fused_matmul \<Rightarrow> VTensor \<Rightarrow> VTensor \<Rightarrow> VTensor \<Rightarrow> VTensor \<Rightarrow> real \<Rightarrow> VTensor" where
  "linear_binary_sub svc input weight bias binary alpha =
     linear_sum svc input weight bias binary (- alpha)"

text \<open>
  The macro \<open>IPEX_LINEAR_BINARY_DEFINATION(func)\<close>: the algorithm kind and the
  framework operator \<open>at::func\<close> it pastes are parameters.
\<close>

definition IPEX_LINEAR_BINARY_DEFINATION ::
  "algorithm \<Rightarrow> (VTensor \<Rightarrow> VTensor \<Rightarrow> VTensor) \<Rightarrow> fused_matmul
     \<Rightarrow> VTensor \<Rightarrow> VTensor \<Rightarrow> VTensor \<Rightarrow> VTensor \<Rightarrow> VTensor" where
  "IPEX_LINEAR_BINARY_DEFINATION kind at_func svc input weight bias binary =
     (let linear_wrapper = new_LinearConverter;
          post_op = append_scale_binary kind binary 1 [];
          (output, linear_wrapper) = call svc linear_wrapper input weight bias post_op
      in if \<not> is_fused linear_wrapper then at_func output binary else output)"

subsection \<open>The service's contract, as the specification words it\<close>

text \<open>
  Modelled from the spec: the plain linear map the service computes for a
  two-dimensional input \<open>[m, k]\<close>, a weight \<open>[n, k]\<close> and an optional bias \<open>[n]\<close>, and
  a service that never fuses: it reports \<open>isFused = false\<close> and returns the plain
  matmul result, leaving every requested post-op to its caller.
\<close>

definition plain_linear :: "VTensor \<Rightarrow> VTensor \<Rightarrow> VTensor \<Rightarrow> VTensor" where
  "plain_linear input weight bias =
     (let m = sizes input ! 0; k = sizes input ! 1; n = sizes weight ! 0
      in \<lparr>defined = True, sizes = [m, n],
          elems = concat (map (\<lambda>i. map (\<lambda>j.
                    sum_list (map (\<lambda>l. elems input ! (i * k + l) * elems weight ! (j * k + l)) [0..<k])
                      + (if defined bias then elems bias ! j else 0)) [0..<n]) [0..<m])\<rparr>)"

definition never_fused :: fused_matmul where
  "never_fused input weight transposed attr bias = (plain_linear input weight bias, False)"

text \<open>The leaky-relu post-op on one element, in the specification's formula.\<close>

definition leaky_relu :: "real \<Rightarrow> real \<Rightarrow> real" where
  "leaky_relu slope x = max x 0 + slope * min x 0"

subsection \<open>Theorems\<close>

lemma call_eq:
  "call svc w input weight bias attr =
     (let r = svc (if dim input \<le> 2 then input else contiguous input) weight False attr
                (if defined bias then bias else undefined_tensor)
      in (fst r, w\<lparr>is_fused_field := snd r\<rparr>))"
  by (simp add: call_def Let_def split: prod.splits)

lemma call_fst:
  "fst (call svc w input weight bias attr) =
     fst (svc (if dim input \<le> 2 then input else contiguous input) weight False attr
            (if defined bias then bias else undefined_tensor))"
  by (simp add: call_def Let_def split: prod.splits)

lemma call_is_fused:
  "is_fused (snd (call svc w input weight bias attr)) =
     snd (svc (if dim input \<le> 2 then input else contiguous input) weight False attr
            (if defined bias then bias else undefined_tensor))"
  by (simp add: call_def Let_def is_fused_def split: prod.splits)

text \<open>
  C1 (the code departs from the claim). The elementwise entry points return whatever the
  service returned and never read the wrapper's flag. With a service that does not
  fuse, \<open>linear_leaky_relu\<close> returns the plain matmul result: for the input
  \<open>[[1]]\<close>, the weight \<open>[[-1]]\<close>, no bias and the slope \<open>1/10\<close> it returns
  \<open>[[-1]]\<close>, where the leaky relu of \<open>-1\<close> is \<open>-1/10\<close>. The binary entry points
  (\<open>linear_sum\<close>, \<open>IPEX_LINEAR_BINARY_DEFINATION\<close>) do apply their post-op when the
  flag is false.
\<close>

theorem linear_leaky_relu_unfused_is_plain:
  "linear_leaky_relu never_fused input weight bias slope =
     plain_linear (if dim input \<le> 2 then input else contiguous input) weight
       (if defined bias then bias else undefined_tensor)
   \<and> elems (linear_leaky_relu never_fused
         \<lparr>defined = True, sizes = [1, 1], elems = [1]\<rparr>
         \<lparr>defined = True, sizes = [1, 1], elems = [-1]\<rparr>
         undefined_tensor (1 / 10)) = [-1]
   \<and> map (leaky_relu (1 / 10)) [-1] = [-1 / 10]
   \<and> IPEX_LINEAR_DEFINATION kind svc input weight bias =
       fst (svc (if dim input \<le> 2 then input else contiguous input) weight False
              [Eltwise 1 0 0 kind] (if defined bias then bias else undefined_tensor))"
proof -
  have a: "linear_leaky_relu never_fused input weight bias slope =
     plain_linear (if dim input \<le> 2 then input else contiguous input) weight
       (if defined bias then bias else undefined_tensor)" for input weight bias slope
    by (simp add: linear_leaky_relu_def Let_def call_fst never_fused_def)
  have b: "elems (plain_linear \<lparr>defined = True, sizes = [1, 1], elems = [1]\<rparr>
         \<lparr>defined = True, sizes = [1, 1], elems = [-1]\<rparr> undefined_tensor) = [-1]"
    by (simp add: plain_linear_def Let_def undefined_tensor_def)
  have c: "map (leaky_relu (1 / 10)) [-1] = [-1 / 10]"
    by (simp add: leaky_relu_def)
  have d: "IPEX_LINEAR_DEFINATION kind svc input weight bias =
       fst (svc (if dim input \<le> 2 then input else contiguous input) weight False
              [Eltwise 1 0 0 kind] (if defined bias then bias else undefined_tensor))"
    by (simp add: IPEX_LINEAR_DEFINATION_def Let_def call_fst append_post_eltwise_def)
  show ?thesis
    using b c d by (simp add: a dim_def undefined_tensor_def)
qed

text \<open>
  C6. \<open>linear_binary_sub\<close> with operand \<open>B\<close> and scale \<open>s\<close> is the binary-add path
  \<open>linear_sum\<close> with operand \<open>B\<close> and scale \<open>-s\<close>: it hands the service the single
  record (binary add, \<open>B\<close>, \<open>-s\<close>), returns the service's tensor when the post-op was
  fused, and otherwise adds \<open>-s * B\<close> to it, element by element.
\<close>

theorem linear_binary_sub_is_negated_add:
  "linear_binary_sub svc input weight bias B s = linear_sum svc input weight bias B (- s)
   \<and> linear_binary_sub svc input weight bias B s =
       (let r = svc (if dim input \<le> 2 then input else contiguous input) weight False
                  [Binary kind_with_binary_add B (- s)]
                  (if defined bias then bias else undefined_tensor)
        in if snd r then fst r else add_tensor (fst r) B (- s))
   \<and> elems (add_tensor out B (- s)) = map2 (\<lambda>x y. x - s * y) (elems out) (elems B)"
proof -
  have "linear_sum svc input weight bias B a =
       (let r = svc (if dim input \<le> 2 then input else contiguous input) weight False
                  [Binary kind_with_binary_add B a]
                  (if defined bias then bias else undefined_tensor)
        in if snd r then fst r else add_tensor (fst r) B a)" for a
    by (simp add: linear_sum_def call_eq is_fused_def append_scale_binary_def Let_def)
  then show ?thesis
    by (simp add: linear_binary_sub_def add_tensor_def)
qed

text \<open>
  C9 (the code departs from the claim in its last part). \<open>linear_scalar_div\<close> fails
  with the internal assertion when the scalar is zero, before anything else runs, and
  otherwise hands the service the single record (linear, alpha \<open>1 / scalar\<close>, beta
  \<open>0\<close>) and returns the service's tensor as it is. With a service that does not fuse
  the result is the plain matmul result, not the quotient: for the input \<open>[[6]]\<close>,
  the weight \<open>[[1]]\<close>, no bias and the scalar \<open>2\<close> it returns \<open>[[6]]\<close>, not
  \<open>[[3]]\<close>.
\<close>

theorem linear_scalar_div_behaviour:
  "linear_scalar_div svc input weight bias scalar =
     (if scalar = 0 then Inl (InternalAssert ''div zero in linear_scalar_div'')
      else Inr (fst (svc (if dim input \<le> 2 then input else contiguous input) weight False
                      [Eltwise 1 (1 / scalar) 0 kind_with_linear]
                      (if defined bias then bias else undefined_tensor))))
   \<and> map_sum id elems (linear_scalar_div never_fused
         \<lparr>defined = True, sizes = [1, 1], elems = [6]\<rparr>
         \<lparr>defined = True, sizes = [1, 1], elems = [1]\<rparr>
         undefined_tensor 2) = Inr [6]
   \<and> map (\<lambda>x. x / 2) [6 :: real] = [3]"
proof -
  have a: "linear_scalar_div svc input weight bias scalar =
     (if scalar = 0 then Inl (InternalAssert ''div zero in linear_scalar_div'')
      else Inr (fst (svc (if dim input \<le> 2 then input else contiguous input) weight False
                      [Eltwise 1 (1 / scalar) 0 kind_with_linear]
                      (if defined bias then bias else undefined_tensor))))" for svc input weight bias scalar
    by (simp add: linear_scalar_div_def Let_def call_fst append_post_eltwise_def)
  have b: "elems (plain_linear \<lparr>defined = True, sizes = [1, 1], elems = [6]\<rparr>
         \<lparr>defined = True, sizes = [1, 1], elems = [1]\<rparr> undefined_tensor) = [6]"
    by (simp add: plain_linear_def Let_def undefined_tensor_def)
  show ?thesis
    using b by (simp add: a never_fused_def dim_def undefined_tensor_def)
qed

section \<open>Device memory, strided tensors and parallel kernels\<close>

text \<open>
  The kernels of BatchLinearAlgebra.cpp and Cat.cpp work on raw element pointers. A
  store maps a buffer (the address a \<open>data_ptr()\<close> returns) to the elements that
  start there; two tensors alias when their \<open>data_ptr\<close> is the same buffer. Sizes,
  strides and element counts are natural numbers: the framework keeps them
  non-negative, and every quotient below is bounded by its dividend, so the casts
  between \<open>size_t\<close>, \<open>int64_t\<close> and the kernel's index type do not change a value
  that fits the index type.
\<close>

type_synonym 'a store = "nat \<Rightarrow> 'a list"

datatype ScalarType =
    kByte | kChar | kShort | kInt | kLong | kHalf | kFloat | kDouble | kBool | kBFloat16

record Tensor =
  is_defined :: bool
  tsizes :: "nat list"
  tstrides :: "nat list"
  scalar_type :: ScalarType
  data_ptr :: nat

definition numel :: "Tensor \<Rightarrow> nat" where
  "numel t = prod_list (tsizes t)"

definition tdim :: "Tensor \<Rightarrow> nat" where
  "tdim t = length (tsizes t)"

text \<open>Row-major strides of a shape: the last dimension has stride 1.\<close>

fun contiguous_strides :: "nat list \<Rightarrow> nat list" where
  "contiguous_strides [] = []"
| "contiguous_strides (d # ds) = prod_list ds # contiguous_strides ds"

text \<open>
  The offset of the \<open>L\<close>-th element (in row-major order of the indices) of a tensor
  with the given sizes and strides, relative to its first element.
\<close>

fun strided_offset :: "nat list \<Rightarrow> nat list \<Rightarrow> nat \<Rightarrow> nat" where
  "strided_offset (d # ds) (s # ss) L =
     (L div prod_list ds) mod d * s + strided_offset ds ss L"
| "strided_offset ds ss L = 0"

text \<open>
  The elements of a tensor in row-major order of the indices, read from its buffer
  through its strides: what the tensor holds, whatever its layout.
\<close>

definition tensor_values :: "Tensor \<Rightarrow> 'a store \<Rightarrow> 'a list" where
  "tensor_values t st =
     map (\<lambda>L. st (data_ptr t) ! strided_offset (tsizes t) (tstrides t) L) [0..<numel t]"

text \<open>
  What a kernel can do wrong: divide by zero, touch an element outside the buffer it
  was given, read a stride the tensor does not have, loop forever, or be launched on a
  range its work-group size does not divide. Each is a value of the model, so that a theorem that a
  kernel succeeds says that none of them happens.
\<close>

datatype kernel_fault =
    DivisionByZero | OutOfBounds | NonTermination | MissingStride | InvalidNdRange

text \<open>
  The grid-stride loop of one work-item,
  \<open>for (i = first; i < N; i += step) body(i)\<close>, on the store. With a zero step the
  source loop would not end.
\<close>

function item_loop ::
  "(nat \<Rightarrow> 'a store \<Rightarrow> kernel_fault + 'a store) \<Rightarrow> nat \<Rightarrow> nat \<Rightarrow> nat \<Rightarrow> 'a store
     \<Rightarrow> kernel_fault + 'a store" where
  "item_loop body step N i st =
     (if i < N then
        (if step = 0 then Inl NonTermination
         else case body i st of
                Inl e \<Rightarrow> Inl e
              | Inr st' \<Rightarrow> item_loop body step N (i + step) st')
      else Inr st)"
  by pat_completeness auto
termination
  by (relation "measure (\<lambda>(body, step, N, i, st). N - i)") auto

declare item_loop.simps [simp del]

text \<open>
  A \<open>parallel_for\<close> over work-items: the items run one after the other in the order
  \<open>sched\<close> lists them, and the first fault ends the kernel. The theorems about a
  kernel hold for every order of its work-items.
\<close>

fun parallel_for ::
  "('w \<Rightarrow> 'a store \<Rightarrow> kernel_fault + 'a store) \<Rightarrow> 'w list \<Rightarrow> 'a store
     \<Rightarrow> kernel_fault + 'a store" where
  "parallel_for item [] st = Inr st"
| "parallel_for item (w # ws) st =
     (case item w st of Inl e \<Rightarrow> Inl e | Inr st' \<Rightarrow> parallel_for item ws st')"

section \<open>BatchLinearAlgebra.cpp: triangular masks\<close>

definition CeilDiv :: "nat \<Rightarrow> nat \<Rightarrow> nat" where
  "CeilDiv a b = (a + b - 1) div b"

text \<open>
  Row and column of a linear position, as the kernel recovers them; a zero divisor is
  a fault.
\<close>

definition row_col :: "nat \<Rightarrow> nat \<Rightarrow> nat \<Rightarrow> kernel_fault + (nat \<times> nat)" where
  "row_col stride0 stride1 linearIndex =
     (if stride0 > stride1 then
        (if stride1 = 0 then Inl DivisionByZero
         else Inr (linearIndex div stride0, linearIndex mod stride0 div stride1))
      else
        (if stride1 = 0 \<or> stride0 = 0 then Inl DivisionByZero
         else Inr (linearIndex mod stride1 div stride0, linearIndex div stride1)))"

definition mask_of :: "bool \<Rightarrow> int \<Rightarrow> nat \<times> nat \<Rightarrow> bool" where
  "mask_of upper k rc = (case rc of (row, col) \<Rightarrow>
     if upper then int col - int row \<ge> k else int col - int row \<le> k)"

text \<open>The body of the kernel's loop for one linear position.\<close>

definition triu_tril_body ::
  "bool \<Rightarrow> nat \<Rightarrow> nat \<Rightarrow> nat \<Rightarrow> nat \<Rightarrow> int \<Rightarrow> nat \<Rightarrow> ('a::zero) store
     \<Rightarrow> kernel_fault + 'a store" where
  "triu_tril_body upper result src stride0 stride1 k linearIndex st =
     (case row_col stride0 stride1 linearIndex of
        Inl e \<Rightarrow> Inl e
      | Inr rc \<Rightarrow>
          if linearIndex < length (st src) \<and> linearIndex < length (st result) then
            Inr (st(result := (st result)
                   [linearIndex := (if mask_of upper k rc then st src ! linearIndex else 0)]))
          else Inl OutOfBounds)"

text \<open>
  \<open>triu_tril_dpcpp_kernel\<close>: \<open>total_items\<close> work-items, each starting at its global
  id and advancing by the global range. \<open>group_size\<close> is the device's maximal
  work-group size, and \<open>sched\<close> is the order in which the global ids
  \<open>0 ..< total_items\<close> happen to run.
\<close>

definition total_items :: "nat \<Rightarrow> nat \<Rightarrow> nat" where
  "total_items N group_size = CeilDiv N group_size * group_size"

definition triu_tril_dpcpp_kernel ::
  "bool \<Rightarrow> nat \<Rightarrow> nat list \<Rightarrow> nat \<Rightarrow> nat \<Rightarrow> nat \<Rightarrow> nat \<Rightarrow> int \<Rightarrow> nat \<Rightarrow> ('a::zero) store
     \<Rightarrow> kernel_fault + 'a store" where
  "triu_tril_dpcpp_kernel upper group_size sched result src stride0 stride1 k N st =
     (if group_size = 0 then Inl DivisionByZero
      else parallel_for
             (\<lambda>gid. item_loop (triu_tril_body upper result src stride0 stride1 k)
                      (total_items N group_size) N gid)
             sched st)"

text \<open>
  \<open>resize_\<close> of the framework (here \<open>resize_inplace\<close>: a name cannot end in an
  underscore): the tensor gets the new sizes with row-major strides, and its buffer
  grows to hold them; the new cells hold whatever the allocator left there
  (\<open>uninit\<close>).
\<close>

definition resize_inplace :: "'a \<Rightarrow> nat list \<Rightarrow> Tensor \<Rightarrow> 'a store \<Rightarrow> Tensor \<times> 'a store" where
  "resize_inplace uninit new_sizes t st =
     (t\<lparr>tsizes := new_sizes, tstrides := contiguous_strides new_sizes\<rparr>,
      st(data_ptr t := st (data_ptr t)
           @ replicate (prod_list new_sizes - length (st (data_ptr t))) uninit))"

definition resize_as_inplace :: "'a \<Rightarrow> Tensor \<Rightarrow> Tensor \<Rightarrow> 'a store \<Rightarrow> Tensor \<times> 'a store" where
  "resize_as_inplace uninit t the_template st = resize_inplace uninit (tsizes the_template) t st"

text \<open>
  \<open>triu_tril_dpcpp_template\<close>: both branches of the index-width test run the same
  kernel on the first two strides of \<open>self\<close>; a tensor with fewer than two
  dimensions has no such strides.
\<close>

definition triu_tril_dpcpp_template ::
  "bool \<Rightarrow> nat \<Rightarrow> nat list \<Rightarrow> Tensor \<Rightarrow> Tensor \<Rightarrow> int \<Rightarrow> ('a::zero) store
     \<Rightarrow> kernel_fault + (Tensor \<times> 'a store)" where
  "triu_tril_dpcpp_template upper group_size sched result self k st =
     (let N = numel self in
      if length (tstrides self) < 2 then Inl MissingStride
      else
        case triu_tril_dpcpp_kernel upper group_size sched
               (data_ptr result) (data_ptr self) (tstrides self ! 0) (tstrides self ! 1) k N st of
          Inl e \<Rightarrow> Inl e
        | Inr st' \<Rightarrow> Inr (result, st'))"

text \<open>
  \<open>tril_dpcpp_out\<close> and \<open>triu_dpcpp_out\<close> differ in the template's \<open>upper\<close> flag
  only; \<open>triu_tril_dpcpp_out\<close> is their common text.
\<close>

definition triu_tril_dpcpp_out ::
  "bool \<Rightarrow> 'a \<Rightarrow> nat \<Rightarrow> nat list \<Rightarrow> Tensor \<Rightarrow> Tensor \<Rightarrow> int \<Rightarrow> ('a::zero) store
     \<Rightarrow> kernel_fault + (Tensor \<times> 'a store)" where
  "triu_tril_dpcpp_out upper uninit group_size sched result self k st =
     (let (result, st) = (if tsizes result \<noteq> tsizes self then resize_as_inplace uninit result self st
                          else (result, st))
      in if numel self = 0 then Inr (result, st)
         else triu_tril_dpcpp_template upper group_size sched result self k st)"

definition tril_dpcpp_out ::
  "'a \<Rightarrow> nat \<Rightarrow> nat list \<Rightarrow> Tensor \<Rightarrow> Tensor \<Rightarrow> int \<Rightarrow> ('a::zero) store
     \<Rightarrow> kernel_fault + (Tensor \<times> 'a store)" where
  "tril_dpcpp_out = triu_tril_dpcpp_out False"

definition triu_dpcpp_out ::
  "'a \<Rightarrow> nat \<Rightarrow> nat list \<Rightarrow> Tensor \<Rightarrow> Tensor \<Rightarrow> int \<Rightarrow> ('a::zero) store
     \<Rightarrow> kernel_fault + (Tensor \<times> 'a store)" where
  "triu_dpcpp_out = triu_tril_dpcpp_out True"

text \<open>The in-place forms \<open>tril_dpcpp_\<close>, \<open>triu_dpcpp_\<close>, \<open>tril_\<close> and \<open>triu_\<close>.\<close>

definition tril_dpcpp_inplace ::
  "'a \<Rightarrow> nat \<Rightarrow> nat list \<Rightarrow> Tensor \<Rightarrow> int \<Rightarrow> ('a::zero) store \<Rightarrow> kernel_fault + (Tensor \<times> 'a store)" where
  "tril_dpcpp_inplace uninit group_size sched self k st =
     tril_dpcpp_out uninit group_size sched self self k st"

definition triu_dpcpp_inplace ::
  "'a \<Rightarrow> nat \<Rightarrow> nat list \<Rightarrow> Tensor \<Rightarrow> int \<Rightarrow> ('a::zero) store \<Rightarrow> kernel_fault + (Tensor \<times> 'a store)" where
  "triu_dpcpp_inplace uninit group_size sched self k st =
     triu_dpcpp_out uninit group_size sched self self k st"

definition triu_out ::
  "'a \<Rightarrow> nat \<Rightarrow> nat list \<Rightarrow> Tensor \<Rightarrow> Tensor \<Rightarrow> int \<Rightarrow> ('a::zero) store
     \<Rightarrow> kernel_fault + (Tensor \<times> 'a store)" where
  "triu_out uninit group_size sched out self diagonal st =
     triu_dpcpp_out uninit group_size sched out self diagonal st"

definition tril_out ::
  "'a \<Rightarrow> nat \<Rightarrow> nat list \<Rightarrow> Tensor \<Rightarrow> Tensor \<Rightarrow> int \<Rightarrow> ('a::zero) store
     \<Rightarrow> kernel_fault + (Tensor \<times> 'a store)" where
  "tril_out uninit group_size sched out self diagonal st =
     tril_dpcpp_out uninit group_size sched out self diagonal st"

definition tril_inplace ::
  "'a \<Rightarrow> nat \<Rightarrow> nat list \<Rightarrow> Tensor \<Rightarrow> int \<Rightarrow> ('a::zero) store \<Rightarrow> kernel_fault + (Tensor \<times> 'a store)" where
  "tril_inplace uninit group_size sched self diagonal st =
     tril_out uninit group_size sched self self diagonal st"

definition triu_inplace ::
  "'a \<Rightarrow> nat \<Rightarrow> nat list \<Rightarrow> Tensor \<Rightarrow> int \<Rightarrow> ('a::zero) store \<Rightarrow> kernel_fault + (Tensor \<times> 'a store)" where
  "triu_inplace uninit group_size sched self diagonal st =
     triu_out uninit group_size sched self self diagonal st"

subsection \<open>The specification's words for the mask\<close>

text \<open>
  Row and column of a linear position as the specification words them, without the
  kernel's zero tests; \<open>masked\<close> is the value the specification assigns to position
  \<open>i\<close>, and \<open>masked_store\<close> the store in which the positions in \<open>D\<close> below \<open>N\<close>
  of the result buffer hold that value.
\<close>

definition spec_row_col :: "nat \<Rightarrow> nat \<Rightarrow> nat \<Rightarrow> nat \<times> nat" where
  "spec_row_col rowStride colStride i =
     (if rowStride > colStride then (i div rowStride, i mod rowStride div colStride)
      else (i mod colStride div rowStride, i div colStride))"

definition masked :: "bool \<Rightarrow> nat \<Rightarrow> nat \<Rightarrow> int \<Rightarrow> nat \<Rightarrow> 'a \<Rightarrow> 'a::zero" where
  "masked upper stride0 stride1 k i v =
     (if mask_of upper k (spec_row_col stride0 stride1 i) then v else 0)"

definition masked_store ::
  "bool \<Rightarrow> nat \<Rightarrow> nat \<Rightarrow> nat \<Rightarrow> nat \<Rightarrow> int \<Rightarrow> nat \<Rightarrow> nat set \<Rightarrow> ('a::zero) store \<Rightarrow> 'a store" where
  "masked_store upper result src stride0 stride1 k N D st =
     st(result := map (\<lambda>i. if i \<in> D \<and> i < N then masked upper stride0 stride1 k i (st src ! i)
                            else st result ! i) [0..<length (st result)])"

text \<open>
  Example data: a contiguous 3x3 matrix of ones in buffer 0, a 2x2 matrix in buffer 0
  with a second buffer of four elements, and an empty result tensor on buffer 1.
\<close>

definition ones3 :: Tensor where
  "ones3 = \<lparr>is_defined = True, tsizes = [3, 3], tstrides = [3, 1], scalar_type = kInt, data_ptr = 0\<rparr>"

definition empty_out :: Tensor where
  "empty_out = \<lparr>is_defined = True, tsizes = [0], tstrides = [1], scalar_type = kInt, data_ptr = 1\<rparr>"

definition ones3_store :: "int store" where
  "ones3_store = (\<lambda>b. [])(0 := [1, 1, 1, 1, 1, 1, 1, 1, 1])"

definition mat2_store :: "int store" where
  "mat2_store = (\<lambda>b. [])(0 := [1, 2, 3, 4], 1 := [9, 9, 9, 9])"

definition mat2 :: Tensor where
  "mat2 = \<lparr>is_defined = True, tsizes = [2, 2], tstrides = [2, 1], scalar_type = kInt, data_ptr = 0\<rparr>"

text \<open>
  The transposed view of that matrix: the same buffer read with strides \<open>[1, 2]\<close>,
  so the rows \<open>[1, 3]\<close> and \<open>[2, 4]\<close>.
\<close>

definition mat2_t :: Tensor where
  "mat2_t = \<lparr>is_defined = True, tsizes = [2, 2], tstrides = [1, 2], scalar_type = kInt, data_ptr = 0\<rparr>"

subsection \<open>Theorems about the triangular masks\<close>

lemma item_loop_once:
  assumes "N \<le> step"
  shows "item_loop body step N gid st = (if gid < N then body gid st else Inr st)"
proof (cases "gid < N")
  case True
  then have s: "step \<noteq> 0" using assms by auto
  have nxt: "item_loop body step N (gid + step) st' = Inr st'" for st'
    using assms by (subst item_loop.simps) simp
  show ?thesis
    using True s by (subst item_loop.simps) (simp add: nxt split: sum.splits)
next
  case False
  then show ?thesis by (subst item_loop.simps) simp
qed

lemma row_col_pos:
  "0 < stride0 \<Longrightarrow> 0 < stride1 \<Longrightarrow>
     row_col stride0 stride1 i = Inr (spec_row_col stride0 stride1 i)"
  by (simp add: row_col_def spec_row_col_def)

lemma masked_store_empty:
  "masked_store upper result src stride0 stride1 k N {} st = st"
  by (simp add: masked_store_def map_nth)

lemma masked_store_src:
  assumes "i \<notin> D" "i < length (st src)" "i < length (st result)"
  shows "masked_store upper result src stride0 stride1 k N D st src ! i = st src ! i"
  using assms by (simp add: masked_store_def)

lemma masked_store_length:
  "length (masked_store upper result src stride0 stride1 k N D st b) = length (st b)"
  by (simp add: masked_store_def)

lemma masked_store_insert_ge:
  "N \<le> gid \<Longrightarrow> masked_store upper result src stride0 stride1 k N (insert gid D) st
     = masked_store upper result src stride0 stride1 k N D st"
  by (auto simp: masked_store_def intro!: arg_cong[where f="\<lambda>x. st(result := x)"])

lemma body_step:
  assumes "0 < stride0" "0 < stride1" "gid < N" "N \<le> length (st src)" "N \<le> length (st result)"
    and "gid \<notin> D"
  shows "triu_tril_body upper result src stride0 stride1 k gid
           (masked_store upper result src stride0 stride1 k N D st)
         = Inr (masked_store upper result src stride0 stride1 k N (insert gid D) st)"
proof -
  let ?m = "masked_store upper result src stride0 stride1 k N D st"
  have l1: "gid < length (?m src)" "gid < length (?m result)"
    using assms by (simp_all add: masked_store_length)
  have rd: "?m src ! gid = st src ! gid"
    using assms by (intro masked_store_src) auto
  have upd: "?m(result := (?m result)[gid := masked upper stride0 stride1 k gid (st src ! gid)])
       = masked_store upper result src stride0 stride1 k N (insert gid D) st"
    using assms
    by (auto simp: masked_store_def intro!: nth_equalityI arg_cong[where f="\<lambda>x. st(result := x)"]
        simp: nth_list_update)
  have body: "triu_tril_body upper result src stride0 stride1 k gid ?m
      = Inr (?m(result := (?m result)[gid := masked upper stride0 stride1 k gid (?m src ! gid)]))"
    using l1 by (simp add: triu_tril_body_def row_col_pos assms masked_def)
  show ?thesis
    by (simp only: body rd upd)
qed

lemma parallel_for_masked:
  assumes "0 < stride0" "0 < stride1" "N \<le> length (st src)" "N \<le> length (st result)"
    and "N \<le> step"
  shows "distinct sched \<Longrightarrow> set sched \<inter> D = {} \<Longrightarrow>
     parallel_for (\<lambda>gid. item_loop (triu_tril_body upper result src stride0 stride1 k) step N gid)
       sched (masked_store upper result src stride0 stride1 k N D st)
     = Inr (masked_store upper result src stride0 stride1 k N (D \<union> set sched) st)"
proof (induction sched arbitrary: D)
  case Nil
  then show ?case by simp
next
  case (Cons g gs)
  have g: "g \<notin> D" "distinct gs" "set gs \<inter> insert g D = {}"
    using Cons.prems by auto
  have one: "item_loop (triu_tril_body upper result src stride0 stride1 k) step N g
               (masked_store upper result src stride0 stride1 k N D st)
             = Inr (masked_store upper result src stride0 stride1 k N (insert g D) st)"
  proof (cases "g < N")
    case True
    then show ?thesis
      using assms g by (simp add: item_loop_once body_step)
  next
    case False
    then show ?thesis
      using assms by (simp add: item_loop_once masked_store_insert_ge)
  qed
  show ?case
    using Cons.IH[OF g(2,3)] by (simp add: one)
qed

lemma total_items_ge: "0 < group_size \<Longrightarrow> N \<le> total_items N group_size"
proof -
  assume g: "0 < group_size"
  have "N \<le> (N + group_size - 1) div group_size * group_size"
  proof -
    have "(N + group_size - 1) mod group_size < group_size" using g by simp
    moreover have "(N + group_size - 1) div group_size * group_size
        = (N + group_size - 1) - (N + group_size - 1) mod group_size"
      by (simp add: minus_mod_eq_div_mult)
    ultimately show ?thesis using g by linarith
  qed
  then show ?thesis by (simp add: total_items_def CeilDiv_def)
qed

lemma kernel_masked:
  assumes "0 < group_size" "0 < stride0" "0 < stride1"
    "N \<le> length (st src)" "N \<le> length (st result)"
    "distinct sched" "set sched = {0..<total_items N group_size}"
  shows "triu_tril_dpcpp_kernel upper group_size sched result src stride0 stride1 k N st
     = Inr (masked_store upper result src stride0 stride1 k N {0..<N} st)"
proof -
  have ge: "N \<le> total_items N group_size" using assms(1) by (rule total_items_ge)
  have "parallel_for (\<lambda>gid. item_loop (triu_tril_body upper result src stride0 stride1 k)
           (total_items N group_size) N gid)
       sched (masked_store upper result src stride0 stride1 k N {} st)
     = Inr (masked_store upper result src stride0 stride1 k N ({} \<union> set sched) st)"
    using assms ge by (intro parallel_for_masked) auto
  moreover have "masked_store upper result src stride0 stride1 k N (set sched) st
      = masked_store upper result src stride0 stride1 k N {0..<N} st"
    using ge by (auto simp: masked_store_def assms(7) intro!: arg_cong[where f="\<lambda>x. st(result := x)"])
  ultimately show ?thesis
    using assms(1) by (simp add: triu_tril_dpcpp_kernel_def masked_store_empty)
qed

lemma masked_store_other:
  "b \<noteq> result \<Longrightarrow> masked_store upper result src stride0 stride1 k N D st b = st b"
  by (simp add: masked_store_def)

lemma masked_store_nth:
  "i < N \<Longrightarrow> i < length (st result) \<Longrightarrow>
     masked_store upper result src stride0 stride1 k N {0..<N} st result ! i
       = masked upper stride0 stride1 k i (st src ! i)"
  by (simp add: masked_store_def)

lemma take_masked_store:
  assumes "N \<le> length (st result)"
  shows "take N (masked_store upper result src stride0 stride1 k N {0..<N} st result)
     = map (\<lambda>i. masked upper stride0 stride1 k i (st src ! i)) [0..<N]"
  using assms by (intro nth_equalityI) (simp_all add: masked_store_length masked_store_nth)

text \<open>
  C7. For positive strides, a result and a source buffer of at least \<open>N\<close> elements
  and any order of the work-items, the kernel succeeds and writes, at every linear
  position \<open>i < N\<close>, the source element when \<open>col - row \<ge> k\<close> (upper) or
  \<open>col - row \<le> k\<close> (lower) and zero otherwise, with row and column recovered from
  \<open>i\<close> by the larger stride first. On a contiguous 3x3 matrix of ones, \<open>triu\<close> and
  \<open>tril\<close> with \<open>k = 0\<close> give the upper and lower triangle with the diagonal, and
  \<open>k = 1\<close>, \<open>k = -1\<close> move the boundary by one diagonal.
\<close>

theorem triu_tril_kernel_masks_every_position:
  assumes "0 < group_size" "0 < rowStride" "0 < colStride"
    and "N \<le> length (st src)" "N \<le> length (st result)"
    and "distinct sched" "set sched = {0..<total_items N group_size}"
  shows "(\<exists>st'. triu_tril_dpcpp_kernel upper group_size sched result src rowStride colStride k N st
            = Inr st'
       \<and> length (st' result) = length (st result)
       \<and> (\<forall>i<N. st' result ! i =
            (let row = (if rowStride > colStride then i div rowStride
                        else i mod colStride div rowStride);
                 col = (if rowStride > colStride then i mod rowStride div colStride
                        else i div colStride)
             in if (if upper then int col - int row \<ge> k else int col - int row \<le> k)
                then st src ! i else 0)))
     \<and> map_sum id (\<lambda>(r, s). (tsizes r, s 1)) (triu_out 7 4 [0..<12] empty_out ones3 0 ones3_store)
         = Inr ([3, 3], [1, 1, 1,  0, 1, 1,  0, 0, 1])
     \<and> map_sum id (\<lambda>(r, s). (tsizes r, s 1)) (tril_out 7 4 [0..<12] empty_out ones3 0 ones3_store)
         = Inr ([3, 3], [1, 0, 0,  1, 1, 0,  1, 1, 1])
     \<and> map_sum id (\<lambda>(r, s). (tsizes r, s 1)) (triu_out 7 4 [0..<12] empty_out ones3 1 ones3_store)
         = Inr ([3, 3], [0, 1, 1,  0, 0, 1,  0, 0, 0])
     \<and> map_sum id (\<lambda>(r, s). (tsizes r, s 1)) (tril_out 7 4 [0..<12] empty_out ones3 (- 1) ones3_store)
         = Inr ([3, 3], [0, 0, 0,  1, 0, 0,  1, 1, 0])
     \<and> map_sum id (\<lambda>(r, s). (tsizes r, s 1)) (triu_out 7 4 [0..<12] empty_out ones3 (- 1) ones3_store)
         = Inr ([3, 3], [1, 1, 1,  1, 1, 1,  0, 1, 1])
     \<and> map_sum id (\<lambda>(r, s). (tsizes r, s 1)) (tril_out 7 4 [0..<12] empty_out ones3 1 ones3_store)
         = Inr ([3, 3], [1, 1, 0,  1, 1, 1,  1, 1, 1])"
proof -
  let ?st' = "masked_store upper result src rowStride colStride k N {0..<N} st"
  have "triu_tril_dpcpp_kernel upper group_size sched result src rowStride colStride k N st
            = Inr ?st'"
    using assms by (rule kernel_masked)
  moreover have "length (?st' result) = length (st result)"
    by (rule masked_store_length)
  moreover have "\<forall>i<N. ?st' result ! i =
            (let row = (if rowStride > colStride then i div rowStride
                        else i mod colStride div rowStride);
                 col = (if rowStride > colStride then i mod rowStride div colStride
                        else i div colStride)
             in if (if upper then int col - int row \<ge> k else int col - int row \<le> k)
                then st src ! i else 0)"
    using assms(5)
    by (simp add: masked_store_nth masked_def mask_of_def spec_row_col_def Let_def)
  ultimately have general: "\<exists>st'. triu_tril_dpcpp_kernel upper group_size sched result src rowStride colStride k N st
            = Inr st'
       \<and> length (st' result) = length (st result)
       \<and> (\<forall>i<N. st' result ! i =
            (let row = (if rowStride > colStride then i div rowStride
                        else i mod colStride div rowStride);
                 col = (if rowStride > colStride then i mod rowStride div colStride
                        else i div colStride)
             in if (if upper then int col - int row \<ge> k else int col - int row \<le> k)
                then st src ! i else 0))"
    by blast
  have e1: "map_sum id (\<lambda>(r, s). (tsizes r, s 1)) (triu_out 7 4 [0..<12] empty_out ones3 0 ones3_store)
         = Inr ([3, 3], [1, 1, 1,  0, 1, 1,  0, 0, 1])"
    by code_simp
  have e2: "map_sum id (\<lambda>(r, s). (tsizes r, s 1)) (tril_out 7 4 [0..<12] empty_out ones3 0 ones3_store)
         = Inr ([3, 3], [1, 0, 0,  1, 1, 0,  1, 1, 1])"
    by code_simp
  have e3: "map_sum id (\<lambda>(r, s). (tsizes r, s 1)) (triu_out 7 4 [0..<12] empty_out ones3 1 ones3_store)
         = Inr ([3, 3], [0, 1, 1,  0, 0, 1,  0, 0, 0])"
    by code_simp
  have e4: "map_sum id (\<lambda>(r, s). (tsizes r, s 1)) (tril_out 7 4 [0..<12] empty_out ones3 (- 1) ones3_store)
         = Inr ([3, 3], [0, 0, 0,  1, 0, 0,  1, 1, 0])"
    by code_simp
  have e5: "map_sum id (\<lambda>(r, s). (tsizes r, s 1)) (triu_out 7 4 [0..<12] empty_out ones3 (- 1) ones3_store)
         = Inr ([3, 3], [1, 1, 1,  1, 1, 1,  0, 1, 1])"
    by code_simp
  have e6: "map_sum id (\<lambda>(r, s). (tsizes r, s 1)) (tril_out 7 4 [0..<12] empty_out ones3 1 ones3_store)
         = Inr ([3, 3], [1, 1, 0,  1, 1, 1,  1, 1, 1])"
    by code_simp
  show ?thesis
    using general e1 e2 e3 e4 e5 e6 by (intro conjI)
qed

theorem triu_tril_kernel_witness:
  "(0::nat) < 2 \<and> 4 \<le> length (mat2_store 0) \<and> 4 \<le> length (mat2_store 1)
   \<and> distinct [3, 1, 0, 2 :: nat] \<and> set [3, 1, 0, 2] = {0..<total_items 4 2}
   \<and> (\<exists>st'. triu_tril_dpcpp_kernel True 2 [3, 1, 0, 2] 1 0 2 1 0 4 mat2_store = Inr st'
         \<and> length (st' 1) = 4 \<and> st' 1 ! 2 = 0 \<and> st' 1 ! 3 = 4)"
proof -
  have h: "(0::nat) < 2" "(0::nat) < 1" "4 \<le> length (mat2_store 0)" "4 \<le> length (mat2_store 1)"
    "distinct [3, 1, 0, 2 :: nat]" "set [3, 1, 0, 2] = {0..<total_items 4 2}"
    by (auto simp: mat2_store_def total_items_def CeilDiv_def)
  from triu_tril_kernel_masks_every_position
         [where group_size = 2 and rowStride = 2 and colStride = 1 and N = 4 and st = mat2_store
            and src = 0 and result = 1 and sched = "[3, 1, 0, 2]" and upper = True and k = 0,
          OF h(1) h(1) h(2) h(3) h(4) h(5) h(6)]
  obtain st' where st': "triu_tril_dpcpp_kernel True 2 [3, 1, 0, 2] 1 0 2 1 0 4 mat2_store = Inr st'"
      "length (st' 1) = length (mat2_store 1)"
      "\<forall>i<4. st' 1 ! i =
            (let row = (if (2::nat) > 1 then i div 2 else i mod 1 div 2);
                 col = (if (2::nat) > 1 then i mod 2 div 1 else i div 1)
             in if (if True then int col - int row \<ge> 0 else int col - int row \<le> 0)
                then mat2_store 0 ! i else 0)"
    by blast
  have "st' 1 ! 2 = 0" "st' 1 ! 3 = 4"
    using st'(3) by (simp_all add: mat2_store_def Let_def)
  then show ?thesis
    using h st' by (auto simp: mat2_store_def)
qed

lemma out_eq:
  assumes "0 < group_size" "2 \<le> length (tstrides self)"
    "0 < tstrides self ! 0" "0 < tstrides self ! 1"
    "numel self \<le> length (st (data_ptr self))"
    "tsizes result = tsizes self \<longrightarrow> numel self \<le> length (st (data_ptr result))"
    "distinct sched" "set sched = {0..<total_items (numel self) group_size}"
  shows "triu_tril_dpcpp_out upper uninit group_size sched result self k st
     = (let rs = (if tsizes result \<noteq> tsizes self then resize_as_inplace uninit result self st
                  else (result, st))
        in Inr (fst rs, masked_store upper (data_ptr result) (data_ptr self)
                  (tstrides self ! 0) (tstrides self ! 1) k (numel self) {0..<numel self} (snd rs)))"
proof -
  obtain r' st' where rs: "(if tsizes result \<noteq> tsizes self then resize_as_inplace uninit result self st
                  else (result, st)) = (r', st')"
    by (cases "(if tsizes result \<noteq> tsizes self then resize_as_inplace uninit result self st
                  else (result, st))") auto
  have r': "data_ptr r' = data_ptr result"
    using rs by (auto simp: resize_as_inplace_def resize_inplace_def split: if_splits)
  have l1: "numel self \<le> length (st' (data_ptr self))"
    using rs assms(5) by (auto simp: resize_as_inplace_def resize_inplace_def split: if_splits)
  have l2: "numel self \<le> length (st' (data_ptr result))"
    using rs assms(6) by (auto simp: resize_as_inplace_def resize_inplace_def numel_def split: if_splits)
  show ?thesis
  proof (cases "numel self = 0")
    case True
    have "masked_store upper (data_ptr result) (data_ptr self)
                  (tstrides self ! 0) (tstrides self ! 1) k 0 {} st' = st'"
      by (rule masked_store_empty)
    then show ?thesis
      using True rs by (simp add: triu_tril_dpcpp_out_def)
  next
    case False
    have "triu_tril_dpcpp_kernel upper group_size sched (data_ptr result) (data_ptr self)
            (tstrides self ! 0) (tstrides self ! 1) k (numel self) st'
          = Inr (masked_store upper (data_ptr result) (data_ptr self)
                  (tstrides self ! 0) (tstrides self ! 1) k (numel self) {0..<numel self} st')"
      using assms l1 l2 by (intro kernel_masked) auto
    then show ?thesis
      using False rs assms(2) r'
      by (simp add: triu_tril_dpcpp_out_def triu_tril_dpcpp_template_def Let_def)
  qed
qed

lemma inplace_vs_out:
  assumes "0 < group_size" "2 \<le> length (tstrides self)"
    "0 < tstrides self ! 0" "0 < tstrides self ! 1"
    "numel self \<le> length (st (data_ptr self))"
    "data_ptr out \<noteq> data_ptr self"
    "tsizes out = tsizes self \<longrightarrow> numel self \<le> length (st (data_ptr out))"
    "distinct sched" "set sched = {0..<total_items (numel self) group_size}"
    "distinct sched'" "set sched' = {0..<total_items (numel self) group_size}"
  shows "\<exists>r1 st1 r2 st2.
      triu_tril_dpcpp_out upper uninit group_size sched self self k st = Inr (r1, st1)
    \<and> triu_tril_dpcpp_out upper uninit group_size sched' out self k st = Inr (r2, st2)
    \<and> tsizes r2 = tsizes self \<and> r1 = self
    \<and> take (numel self) (st1 (data_ptr self)) = take (numel self) (st2 (data_ptr out))
    \<and> st2 (data_ptr self) = st (data_ptr self)"
proof -
  let ?N = "numel self"
  let ?rs = "(if tsizes out \<noteq> tsizes self then resize_as_inplace uninit out self st else (out, st))"
  let ?st1 = "masked_store upper (data_ptr self) (data_ptr self)
                  (tstrides self ! 0) (tstrides self ! 1) k ?N {0..<?N} st"
  let ?st2 = "masked_store upper (data_ptr out) (data_ptr self)
                  (tstrides self ! 0) (tstrides self ! 1) k ?N {0..<?N} (snd ?rs)"
  have a: "triu_tril_dpcpp_out upper uninit group_size sched self self k st = Inr (self, ?st1)"
    using assms by (subst out_eq) auto
  have b: "triu_tril_dpcpp_out upper uninit group_size sched' out self k st = Inr (fst ?rs, ?st2)"
    using assms by (subst out_eq) (auto simp: Let_def)
  have src: "snd ?rs (data_ptr self) = st (data_ptr self)"
    using assms(6) by (simp add: resize_as_inplace_def resize_inplace_def)
  have len: "?N \<le> length (snd ?rs (data_ptr out))"
    using assms(7) by (auto simp: resize_as_inplace_def resize_inplace_def numel_def)
  have "take ?N (?st1 (data_ptr self)) = take ?N (?st2 (data_ptr out))"
    using assms(5) len by (simp add: take_masked_store src)
  moreover have "?st2 (data_ptr self) = st (data_ptr self)"
    using assms(6) by (simp add: masked_store_other src)
  moreover have "tsizes (fst ?rs) = tsizes self"
    by (simp add: resize_as_inplace_def resize_inplace_def)
  ultimately show ?thesis using a b by blast
qed

text \<open>
  C10. On the transposed view of the 2x2 matrix (sizes \<open>[2, 2]\<close>, strides \<open>[1, 2]\<close>,
  rows \<open>[1, 3]\<close> and \<open>[2, 4]\<close>) with \<open>k = 0\<close>, \<open>triu_\<close> leaves the upper triangle
  \<open>[1, 3], [0, 4]\<close> and \<open>tril_\<close> the lower triangle \<open>[1, 0], [2, 4]\<close> in \<open>self\<close>,
  while \<open>triu_out\<close> and \<open>tril_out\<close> into an empty result return the tensors
  \<open>[1, 0], [3, 4]\<close> and \<open>[1, 2], [0, 4]\<close>. The kernel masks every buffer position by
  the strides of \<open>self\<close>, and \<open>resize_as_\<close> gave the result row-major strides: the
  buffers agree position by position (\<open>inplace_vs_out\<close>), and the result tensor reads
  its buffer in another order than \<open>self\<close> does.
\<close>

theorem inplace_and_out_of_place_differ_on_transposed_view:
  "tensor_values mat2_t mat2_store = [1, 3, 2, 4]
   \<and> map_sum id (\<lambda>(r, s). (tsizes r, tstrides r, tensor_values r s))
        (triu_inplace 7 2 [0..<4] mat2_t 0 mat2_store)
      = Inr ([2, 2], [1, 2], [1, 3, 0, 4])
   \<and> map_sum id (\<lambda>(r, s). (tsizes r, tstrides r, tensor_values r s))
        (triu_out 7 2 [0..<4] empty_out mat2_t 0 mat2_store)
      = Inr ([2, 2], [2, 1], [1, 0, 3, 4])
   \<and> map_sum id (\<lambda>(r, s). (tsizes r, tstrides r, tensor_values r s))
        (tril_inplace 7 2 [0..<4] mat2_t 0 mat2_store)
      = Inr ([2, 2], [1, 2], [1, 0, 2, 4])
   \<and> map_sum id (\<lambda>(r, s). (tsizes r, tstrides r, tensor_values r s))
        (tril_out 7 2 [0..<4] empty_out mat2_t 0 mat2_store)
      = Inr ([2, 2], [2, 1], [1, 2, 0, 4])"
proof -
  have v: "tensor_values mat2_t mat2_store = [1, 3, 2, 4]"
    by code_simp
  have a: "map_sum id (\<lambda>(r, s). (tsizes r, tstrides r, tensor_values r s))
        (triu_inplace 7 2 [0..<4] mat2_t 0 mat2_store)
      = Inr ([2, 2], [1, 2], [1, 3, 0, 4])"
    by code_simp
  have b: "map_sum id (\<lambda>(r, s). (tsizes r, tstrides r, tensor_values r s))
        (triu_out 7 2 [0..<4] empty_out mat2_t 0 mat2_store)
      = Inr ([2, 2], [2, 1], [1, 0, 3, 4])"
    by code_simp
  have c: "map_sum id (\<lambda>(r, s). (tsizes r, tstrides r, tensor_values r s))
        (tril_inplace 7 2 [0..<4] mat2_t 0 mat2_store)
      = Inr ([2, 2], [1, 2], [1, 0, 2, 4])"
    by code_simp
  have d: "map_sum id (\<lambda>(r, s). (tsizes r, tstrides r, tensor_values r s))
        (tril_out 7 2 [0..<4] empty_out mat2_t 0 mat2_store)
      = Inr ([2, 2], [2, 1], [1, 2, 0, 4])"
    by code_simp
  show ?thesis
    using v a b c d by (intro conjI)
qed

section \<open>BatchLinearAlgebra.cpp: LU factorization with status check\<close>

subsection \<open>Definitions\<close>

text \<open>
  The factors are tensors of logical values (\<open>VTensor\<close>); pivots and statuses are
  integer tensors. The failures \<open>_lu_with_info\<close> can raise are its own checks and the
  ones \<open>batchCheckErrors\<close> and \<open>singleCheckErrors\<close> raise for a non-zero status.
\<close>

record ITensor =
  isizes :: "nat list"
  ivalues :: "int list"

datatype lu_error =
    TorchCheck string
  | BatchIllegalArgument nat int
  | BatchSingular nat int
  | IllegalArgument int
  | Singular int

text \<open>
  Modelled from the spec: the factorization service (\<open>getrf_batch\<close> of the
  linear-algebra library). It consumes \<open>m\<close>, \<open>n\<close>, the batched matrix data and the
  batch size, and returns the factors, the pivots and one integer status per batch
  element (0 = success).
\<close>

type_synonym factorization_service =
  "nat \<Rightarrow> nat \<Rightarrow> real list \<Rightarrow> nat \<Rightarrow> real list \<times> int list \<times> int list"

definition vnumel :: "VTensor \<Rightarrow> nat" where
  "vnumel t = prod_list (sizes t)"

text \<open>\<open>native::batchCount\<close>: the product of all sizes but the last two.\<close>

definition batchCount :: "VTensor \<Rightarrow> nat" where
  "batchCount t = prod_list (butlast (butlast (sizes t)))"

definition squareCheckInputs :: "VTensor \<Rightarrow> lu_error + unit" where
  "squareCheckInputs self =
     (if last (sizes self) = last (butlast (sizes self)) then Inr ()
      else Inl (TorchCheck ''A must be batches of square matrices''))"

text \<open>\<open>native::cloneBatchedColumnMajor\<close> copies into another layout; the values stay.\<close>

definition cloneBatchedColumnMajor :: "VTensor \<Rightarrow> VTensor" where
  "cloneBatchedColumnMajor t = t"

definition empty_like :: "VTensor \<Rightarrow> VTensor" where
  "empty_like t = t"

text \<open>
  \<open>apply_lu_dpcpp_\<close> (built with the library): the service writes the factors through
  \<open>a\<close> and the pivots through \<open>ipiv\<close>. The call has no status argument, and
  \<open>infos_\<close> is not written anywhere in the function.
\<close>

definition apply_lu_dpcpp ::
  "factorization_service \<Rightarrow> VTensor \<Rightarrow> ITensor \<Rightarrow> ITensor \<Rightarrow> VTensor \<times> ITensor \<times> ITensor" where
  "apply_lu_dpcpp svc self_w pivots_w infos_w =
     (let batch_size = batchCount self_w;
          m = last (butlast (sizes self_w));
          n = last (sizes self_w);
          (a, ipiv, status) = svc m n (elems self_w) batch_size
      in (self_w\<lparr>elems := a\<rparr>, pivots_w\<lparr>ivalues := ipiv\<rparr>, infos_w))"

text \<open>
  The framework's \<open>native::singleCheckErrors\<close> and \<open>native::batchCheckErrors\<close>: a
  negative status is an illegal argument, a positive one a singular factor; the batched
  form walks the statuses in order and names the first offending batch index.
\<close>

definition singleCheckErrors :: "int \<Rightarrow> lu_error + unit" where
  "singleCheckErrors info =
     (if info < 0 then Inl (IllegalArgument (- info))
      else if info > 0 then Inl (Singular info)
      else Inr ())"

fun batchCheckErrors_from :: "nat \<Rightarrow> int list \<Rightarrow> lu_error + unit" where
  "batchCheckErrors_from i [] = Inr ()"
| "batchCheckErrors_from i (info # infos) =
     (if info < 0 then Inl (BatchIllegalArgument i (- info))
      else if info > 0 then Inl (BatchSingular i info)
      else batchCheckErrors_from (Suc i) infos)"

definition batchCheckErrors :: "ITensor \<Rightarrow> lu_error + unit" where
  "batchCheckErrors infos = batchCheckErrors_from 0 (ivalues infos)"

text \<open>\<open>Tensor::item\<close> of a one-element tensor.\<close>

definition item :: "ITensor \<Rightarrow> int" where
  "item t = hd (ivalues t)"

text \<open>
  \<open>_lu_with_info\<close> (here \<open>lu_with_info\<close>: a name cannot start with an underscore).
  \<open>uninit\<close> is what \<open>at::empty\<close> leaves in the pivots.
\<close>

definition lu_with_info ::
  "factorization_service \<Rightarrow> int \<Rightarrow> VTensor \<Rightarrow> bool \<Rightarrow> bool
     \<Rightarrow> lu_error + (VTensor \<times> ITensor \<times> ITensor)" where
  "lu_with_info svc uninit self pivot check_errors =
     (if \<not> pivot then Inl (TorchCheck ''lu without pivoting is not implemented on the DPCPP'')
      else if \<not> dim self \<ge> 2 then Inl (TorchCheck ''expected tensor with 2 or more dimensions'')
      else case squareCheckInputs self of
        Inl e \<Rightarrow> Inl e
      | Inr u \<Rightarrow>
         (let req_size = butlast (sizes self);
              pivots_tensor = \<lparr>isizes = req_size, ivalues = replicate (prod_list req_size) uninit\<rparr>;
              req_size = butlast req_size;
              infos_tensor = \<lparr>isizes = req_size, ivalues = replicate (prod_list req_size) 0\<rparr>;
              out = (if vnumel self = 0 then (empty_like self, pivots_tensor, infos_tensor)
                     else apply_lu_dpcpp svc (cloneBatchedColumnMajor self) pivots_tensor infos_tensor);
              infos_tensor = snd (snd out)
          in if check_errors then
               (if dim self > 2 then
                  (case batchCheckErrors infos_tensor of Inl e \<Rightarrow> Inl e | Inr u \<Rightarrow> Inr out)
                else
                  (case singleCheckErrors (item infos_tensor) of Inl e \<Rightarrow> Inl e | Inr u \<Rightarrow> Inr out))
             else Inr out))"

text \<open>
  A factorization service that reports the given statuses (and leaves the matrices
  and unit pivots), and a batch of two 2x2 matrices whose second element is singular.
\<close>

definition reporting_service :: "int list \<Rightarrow> factorization_service" where
  "reporting_service statuses m n a batch_size = (a, replicate (batch_size * min m n) 1, statuses)"

definition singular_batch :: VTensor where
  "singular_batch = \<lparr>defined = True, sizes = [2, 2, 2], elems = [1, 0, 0, 1, 1, 1, 1, 1]\<rparr>"

definition singular_matrix :: VTensor where
  "singular_matrix = \<lparr>defined = True, sizes = [2, 2], elems = [1, 1, 1, 1]\<rparr>"

subsection \<open>Theorems\<close>

lemma batchCheckErrors_from_zeros: "batchCheckErrors_from i (replicate n 0) = Inr ()"
  by (induction n arbitrary: i) simp_all

lemma apply_lu_dpcpp_infos: "snd (snd (apply_lu_dpcpp svc a p infos)) = infos"
  by (simp add: apply_lu_dpcpp_def Let_def split: prod.splits)

text \<open>
  C8 (the code departs from the claim). The status tensor is created as zeros, handed
  to \<open>apply_lu_dpcpp_\<close>, which never writes it, and then checked: whatever statuses the
  service reports, the check sees zeros, so with \<open>check_errors = true\<close> the result is
  the one without the check and no factorization failure is ever raised. For the batch
  whose second matrix is singular (service status \<open>[0, 2]\<close>) and for the single
  singular matrix (status \<open>[2]\<close>) the call succeeds with an all-zero status tensor,
  where \<open>batchCheckErrors\<close> on the service's statuses names batch 1 and
  \<open>singleCheckErrors\<close> propagates 2.
\<close>

theorem lu_with_info_never_reports_status:
  "lu_with_info svc uninit self pivot True = lu_with_info svc uninit self pivot False
   \<and> map_sum id (\<lambda>(a, p, infos). infos)
       (lu_with_info (reporting_service [0, 2]) 0 singular_batch True True)
       = Inr \<lparr>isizes = [2], ivalues = [0, 0]\<rparr>
   \<and> batchCheckErrors \<lparr>isizes = [2], ivalues = [0, 2]\<rparr> = Inl (BatchSingular 1 2)
   \<and> map_sum id (\<lambda>(a, p, infos). infos)
       (lu_with_info (reporting_service [2]) 0 singular_matrix True True)
       = Inr \<lparr>isizes = [], ivalues = [0]\<rparr>
   \<and> singleCheckErrors 2 = Inl (Singular 2)"
proof -
  have zeros: "batchCheckErrors \<lparr>isizes = s, ivalues = replicate n 0\<rparr> = Inr ()" for s n
    by (simp add: batchCheckErrors_def batchCheckErrors_from_zeros)
  have single: "2 \<le> dim self \<Longrightarrow> \<not> 2 < dim self \<Longrightarrow>
      item \<lparr>isizes = butlast (butlast (sizes self)),
            ivalues = replicate (prod_list (butlast (butlast (sizes self)))) 0\<rparr> = 0"
  proof -
    assume "2 \<le> dim self" "\<not> 2 < dim self"
    then have "length (sizes self) = 2" by (simp add: dim_def)
    then have "length (butlast (butlast (sizes self))) = 0" by simp
    then have "butlast (butlast (sizes self)) = []" by (simp only: length_0_conv)
    then show ?thesis by (simp add: item_def)
  qed
  have a: "lu_with_info svc uninit self pivot True = lu_with_info svc uninit self pivot False"
    by (auto simp: lu_with_info_def Let_def apply_lu_dpcpp_infos zeros single singleCheckErrors_def
          split: sum.splits)
  have b: "map_sum id (\<lambda>(a, p, infos). infos)
       (lu_with_info (reporting_service [0, 2]) 0 singular_batch True True)
       = Inr \<lparr>isizes = [2], ivalues = [0, 0]\<rparr>"
    by code_simp
  have c: "batchCheckErrors \<lparr>isizes = [2], ivalues = [0, 2]\<rparr> = Inl (BatchSingular 1 2)"
    by code_simp
  have d: "map_sum id (\<lambda>(a, p, infos). infos)
       (lu_with_info (reporting_service [2]) 0 singular_matrix True True)
       = Inr \<lparr>isizes = [], ivalues = [0]\<rparr>"
    by code_simp
  have e: "singleCheckErrors 2 = Inl (Singular 2)"
    by code_simp
  show ?thesis
    using a b c d e by (intro conjI)
qed

section \<open>Cat.cpp: concatenation\<close>

subsection \<open>CatArrIndexToOffset\<close>

definition CAT_ARRAY_BATCH_SIZE :: nat where
  "CAT_ARRAY_BATCH_SIZE = 1024"

definition CAT_ARRAY_MAX_INPUT_DIMS :: nat where
  "CAT_ARRAY_MAX_INPUT_DIMS = 3"

text \<open>
  \<open>parallel_cat\<close> instantiates the kernel with \<open>IndexType = unsigned int\<close>: every
  index computation of the kernel is 32-bit arithmetic that wraps around.
\<close>

type_synonym IndexType = "32 word"

text \<open>
  The loop \<open>for (int i = Dims - 1; i >= 1; --i)\<close> of \<open>compute\<close>: the counter is the
  dimension being processed, and the loop returns the offset and the remaining
  quotient. A zero divisor is a fault.
\<close>

fun CatArrIndexToOffset_loop ::
  "IndexType list \<Rightarrow> IndexType list \<Rightarrow> IndexType \<Rightarrow> nat \<Rightarrow> nat \<Rightarrow> IndexType \<Rightarrow> IndexType
     \<Rightarrow> kernel_fault + (IndexType \<times> IndexType)" where
  "CatArrIndexToOffset_loop outputSize outputStride dimSize concatDim 0 linearIndex offset =
     Inr (offset, linearIndex)"
| "CatArrIndexToOffset_loop outputSize outputStride dimSize concatDim (Suc j) linearIndex offset =
     (let i = Suc j;
          curDimSize = (if i = concatDim then dimSize else outputSize ! i)
      in if curDimSize = 0 then Inl DivisionByZero
         else
           let nextDimIndex = linearIndex div curDimSize;
               curDimIndex = linearIndex - curDimSize * nextDimIndex;
               curDimOffset = curDimIndex * outputStride ! i
           in CatArrIndexToOffset_loop outputSize outputStride dimSize concatDim j
                nextDimIndex (offset + curDimOffset))"

definition CatArrIndexToOffset_compute ::
  "nat \<Rightarrow> IndexType list \<Rightarrow> IndexType list \<Rightarrow> IndexType \<Rightarrow> nat \<Rightarrow> IndexType
     \<Rightarrow> kernel_fault + IndexType" where
  "CatArrIndexToOffset_compute Dims outputSize outputStride dimSize concatDim linearIndex =
     (case CatArrIndexToOffset_loop outputSize outputStride dimSize concatDim (Dims - 1)
             linearIndex 0 of
        Inl e \<Rightarrow> Inl e
      | Inr (offset, linearIndex) \<Rightarrow> Inr (offset + linearIndex * outputStride ! 0))"

subsection \<open>CatArrayBatchedCopy\<close>

text \<open>
  The metadata of one input (\<open>CatArrInputTensor\<close>: fields \<open>input\<close>, \<open>offset\<close>,
  \<open>dimSize\<close>, \<open>nElements\<close>) and of the output (\<open>OutputTensorSizeStride\<close>).
\<close>

record CatArrInputTensor =
  in_input :: nat
  in_offset :: IndexType
  in_dimSize :: IndexType
  in_nElements :: IndexType

record OutputTensorSizeStride =
  os_outputSize :: "IndexType list"
  os_outputStride :: "IndexType list"

text \<open>The body of the kernel's \<open>while\<close> loop for one \<open>tid\<close>.\<close>

definition copy_element ::
  "nat \<Rightarrow> nat \<Rightarrow> OutputTensorSizeStride \<Rightarrow> nat \<Rightarrow> nat \<Rightarrow> IndexType \<Rightarrow> IndexType \<Rightarrow> IndexType
     \<Rightarrow> 'a store \<Rightarrow> kernel_fault + 'a store" where
  "copy_element Dims output os concatDim data dimSize dataOffset tid st =
     (case CatArrIndexToOffset_compute Dims (os_outputSize os) (os_outputStride os)
             dimSize concatDim tid of
        Inl e \<Rightarrow> Inl e
      | Inr elementOffset \<Rightarrow>
          if unat tid < length (st data)
             \<and> unat (dataOffset + elementOffset) < length (st output) then
            Inr (st(output := (st output)
                   [unat (dataOffset + elementOffset) := st data ! unat tid]))
          else Inl OutOfBounds)"

text \<open>
  \<open>while (tid < nElements) { body; tid += stride; }\<close> in 32-bit arithmetic. The
  addition wraps around, so the loop need not end: not returning is \<open>None\<close>.
\<close>

partial_function (option) batched_copy_loop ::
  "(IndexType \<Rightarrow> 'a store \<Rightarrow> kernel_fault + 'a store) \<Rightarrow> IndexType \<Rightarrow> IndexType \<Rightarrow> IndexType
     \<Rightarrow> 'a store \<Rightarrow> (kernel_fault + 'a store) option" where
  "batched_copy_loop body stride nElements tid st =
     (if tid < nElements then
        (case body tid st of
           Inl e \<Rightarrow> Some (Inl e)
         | Inr st' \<Rightarrow> batched_copy_loop body stride nElements (tid + stride) st')
      else Some (Inr st))"

declare batched_copy_loop.simps [code]

text \<open>
  One work-item of the kernel: group \<open>wg\<close> and local id \<open>wi\<close> along the first axis,
  input \<open>inp\<close> along the second; \<open>ngroups\<close> and \<open>wg_size\<close> are the group range and the
  local range of the first axis.
\<close>

definition CatArrayBatchedCopy_item ::
  "nat \<Rightarrow> nat \<Rightarrow> CatArrInputTensor list \<Rightarrow> OutputTensorSizeStride \<Rightarrow> nat \<Rightarrow> IndexType
     \<Rightarrow> nat \<Rightarrow> nat \<Rightarrow> nat \<times> nat \<times> nat \<Rightarrow> 'a store \<Rightarrow> (kernel_fault + 'a store) option" where
  "CatArrayBatchedCopy_item Dims output inputs os concatDim dimStride ngroups wg_size w st =
     (case w of (wg_n, wi_n, inp) \<Rightarrow>
        let wg = (word_of_nat wg_n :: IndexType);
            wg_size_w = (word_of_nat wg_size :: IndexType);
            wi = (word_of_nat wi_n :: IndexType);
            tid = wg * wg_size_w + wi;
            nElements = in_nElements (inputs ! inp)
        in if tid \<ge> nElements then Some (Inr st)
           else
             let data = in_input (inputs ! inp);
                 offset = in_offset (inputs ! inp);
                 dimSize = in_dimSize (inputs ! inp);
                 dataOffset = offset * dimStride;
                 stride = word_of_nat ngroups * wg_size_w
             in batched_copy_loop
                  (copy_element Dims output os concatDim data dimSize dataOffset)
                  stride nElements tid st)"

text \<open>
  A \<open>parallel_for\<close> whose work-items may not return. The work-items of a launch are
  \<open>work_items\<close>; they run in the order \<open>reorder\<close> puts them.
\<close>

fun parallel_for_opt ::
  "('w \<Rightarrow> 'a store \<Rightarrow> (kernel_fault + 'a store) option) \<Rightarrow> 'w list \<Rightarrow> 'a store
     \<Rightarrow> (kernel_fault + 'a store) option" where
  "parallel_for_opt item_fn [] st = Some (Inr st)"
| "parallel_for_opt item_fn (w # ws) st =
     (case item_fn w st of
        None \<Rightarrow> None
      | Some (Inl e) \<Rightarrow> Some (Inl e)
      | Some (Inr st') \<Rightarrow> parallel_for_opt item_fn ws st')"

definition work_items :: "nat \<Rightarrow> nat \<Rightarrow> nat \<Rightarrow> (nat \<times> nat \<times> nat) list" where
  "work_items ngroups wg_size batchCounter =
     concat (map (\<lambda>inp. concat (map (\<lambda>wg. map (\<lambda>wi. (wg, wi, inp)) [0..<wg_size])
                                  [0..<ngroups]))
                 [0..<batchCounter])"

text \<open>
  \<open>CatArrayBatchedCopy\<close>: the global range is \<open>(numCU * numWI / 2, batchCounter)\<close> and
  the local range \<open>(numWI, 1)\<close>; the runtime refuses a global range that the local
  range does not divide.
\<close>

definition CatArrayBatchedCopy ::
  "nat \<Rightarrow> nat \<Rightarrow> nat \<Rightarrow> ((nat \<times> nat \<times> nat) list \<Rightarrow> (nat \<times> nat \<times> nat) list)
     \<Rightarrow> nat \<Rightarrow> CatArrInputTensor list \<Rightarrow> OutputTensorSizeStride \<Rightarrow> nat \<Rightarrow> IndexType \<Rightarrow> nat
     \<Rightarrow> 'a store \<Rightarrow> (kernel_fault + 'a store) option" where
  "CatArrayBatchedCopy Dims numCU numWI reorder output inputs os concatDim dimStride
       batchCounter st =
     (let global0 = numCU * numWI div 2 in
      if numWI = 0 \<or> global0 mod numWI \<noteq> 0 then Some (Inl InvalidNdRange)
      else
        parallel_for_opt
          (CatArrayBatchedCopy_item Dims output inputs os concatDim dimStride
             (global0 div numWI) numWI)
          (reorder (work_items (global0 div numWI) numWI batchCounter)) st)"

subsection \<open>The framework around the kernel\<close>

datatype cat_error =
    TypeError
  | AliasingError nat
  | InternalOverlap
  | InvalidNumberOfInputs
  | InvalidDimension
  | DimensionMismatch
  | SizeMismatch
  | IndexError
  | IntegerOverflow
  | KernelFault kernel_fault

datatype MemOverlapStatus = OverlapFull | OverlapPartial | OverlapNo | OverlapTooHard

datatype MemoryFormat = Contiguous | ChannelsLast | ChannelsLast3d

text \<open>
  What Cat.cpp takes from the framework and the device, as parameters: whether the
  promoted type of the inputs can be cast to the output's type
  (\<open>canCast(result_type(inputs), t)\<close>), \<open>at::get_overlap_status\<close>, the test behind
  \<open>at::assert_no_internal_overlap\<close>, \<open>suggest_memory_format\<close>,
  \<open>canUse32BitIndexMath\<close>, the device's compute units and work-group size, the order
  in which the work-items of the n-th launch run, the contents of fresh memory, and
  for \<open>_cat_out\<close> the vendor library's \<open>cat_valid\<close> and \<open>concat\<close> and
  \<open>to_plain_if_needed\<close>.
\<close>

record 'a framework =
  castable :: "Tensor list \<Rightarrow> ScalarType \<Rightarrow> bool"
  get_overlap_status :: "Tensor \<Rightarrow> Tensor \<Rightarrow> MemOverlapStatus"
  has_internal_overlap :: "Tensor \<Rightarrow> bool"
  suggest_memory_format :: "Tensor \<Rightarrow> MemoryFormat"
  canUse32BitIndexMath :: "Tensor \<Rightarrow> bool"
  numCU :: nat
  numWI :: nat
  reorder :: "nat \<Rightarrow> (nat \<times> nat \<times> nat) list \<Rightarrow> (nat \<times> nat \<times> nat) list"
  uninit :: 'a
  cat_valid :: "Tensor list \<Rightarrow> bool"
  onednn_concat :: "Tensor \<Rightarrow> Tensor list \<Rightarrow> int \<Rightarrow> 'a store \<Rightarrow> Tensor \<times> 'a store"
  to_plain_if_needed :: "Tensor list \<Rightarrow> Tensor list"

text \<open>The default-constructed \<open>Tensor()\<close>: undefined, one dimension of size 0.\<close>

definition undefined_Tensor :: Tensor where
  "undefined_Tensor =
     \<lparr>is_defined = False, tsizes = [0], tstrides = [1], scalar_type = kFloat, data_ptr = 0\<rparr>"

text \<open>
  \<open>Tensor::size(d)\<close> and \<open>at::native::size(t, d)\<close>: a negative \<open>d\<close> counts from the
  end, and a \<open>d\<close> outside the tensor's dimensions raises.
\<close>

definition tensor_size :: "Tensor \<Rightarrow> int \<Rightarrow> cat_error + nat" where
  "tensor_size t d =
     (let n = int (tdim t)
      in if - n \<le> d \<and> d < n then Inr (tsizes t ! nat (if d < 0 then d + n else d))
         else Inl IndexError)"

text \<open>
  \<open>Tensor::is_contiguous\<close> of the framework: an empty tensor is contiguous, and
  otherwise every dimension of size other than 1 has the row-major stride.
\<close>

fun row_major :: "nat list \<Rightarrow> nat list \<Rightarrow> bool" where
  "row_major [] [] = True"
| "row_major (d # ds) (s # ss) = ((d = 1 \<or> s = prod_list ds) \<and> row_major ds ss)"
| "row_major ds ss = False"

definition is_contiguous :: "Tensor \<Rightarrow> bool" where
  "is_contiguous t = (numel t = 0 \<or> row_major (tsizes t) (tstrides t))"

text \<open>Strides of a memory format; \<open>resize_(sizes, format)\<close> restrides to them.\<close>

definition format_strides :: "MemoryFormat \<Rightarrow> nat list \<Rightarrow> nat list" where
  "format_strides fmt sz =
     (case (fmt, sz) of
        (ChannelsLast, [n, c, h, w]) \<Rightarrow> [h * w * c, 1, w * c, c]
      | (ChannelsLast3d, [n, c, d, h, w]) \<Rightarrow> [d * h * w * c, 1, h * w * c, w * c, c]
      | (f, ds) \<Rightarrow> contiguous_strides ds)"

definition resize_format ::
  "'a \<Rightarrow> nat list \<Rightarrow> MemoryFormat \<Rightarrow> Tensor \<Rightarrow> 'a store \<Rightarrow> Tensor \<times> 'a store" where
  "resize_format fresh new_sizes fmt t st =
     (t\<lparr>tsizes := new_sizes, tstrides := format_strides fmt new_sizes\<rparr>,
      st(data_ptr t := st (data_ptr t)
           @ replicate (prod_list new_sizes - length (st (data_ptr t))) fresh))"

text \<open>
  \<open>at::narrow(t, dim, start, length)\<close>: the view of \<open>t\<close> that keeps the indices
  \<open>start ..< start + length\<close> of one dimension; the model returns the view's sizes and
  strides together with the position of its first element in the buffer of \<open>t\<close>.
\<close>

definition narrow :: "Tensor \<Rightarrow> int \<Rightarrow> nat \<Rightarrow> nat \<Rightarrow> cat_error + (Tensor \<times> nat)" where
  "narrow t d start len =
     (let n = int (tdim t)
      in if \<not> (- n \<le> d \<and> d < n) then Inl IndexError
         else
           let k = nat (if d < 0 then d + n else d)
           in if start + len \<le> tsizes t ! k
              then Inr (t\<lparr>tsizes := (tsizes t)[k := len]\<rparr>, start * tstrides t ! k)
              else Inl IndexError)"

text \<open>
  \<open>dst.copy_(src)\<close> of the framework for a destination view and a source of the same
  sizes: element by element, through the strides of each.
\<close>

definition copy_into :: "Tensor \<times> nat \<Rightarrow> Tensor \<Rightarrow> 'a store \<Rightarrow> 'a store" where
  "copy_into view src st =
     (case view of (dst, first) \<Rightarrow>
        fold (\<lambda>L st. st(data_ptr dst := (st (data_ptr dst))
                 [first + strided_offset (tsizes dst) (tstrides dst) L :=
                    st (data_ptr src) ! strided_offset (tsizes src) (tstrides src) L]))
             [0..<numel src] st)"

subsection \<open>parallel_cat\<close>

text \<open>
  The inner loop of \<open>parallel_cat\<close> that fills the metadata of one batch and advances
  the running offset; the conversions to \<open>unsigned int\<close> truncate.
\<close>

fun fill_stackInputs ::
  "int \<Rightarrow> Tensor list \<Rightarrow> nat \<Rightarrow> cat_error + (CatArrInputTensor list \<times> nat)" where
  "fill_stackInputs dimension [] offset = Inr ([], offset)"
| "fill_stackInputs dimension (t # ts) offset =
     (case tensor_size t dimension of
        Inl e \<Rightarrow> Inl e
      | Inr dimSize \<Rightarrow>
          (case fill_stackInputs dimension ts (offset + dimSize) of
             Inl e \<Rightarrow> Inl e
           | Inr (rest, offset') \<Rightarrow>
               Inr (\<lparr>in_input = data_ptr t, in_offset = word_of_nat offset,
                     in_dimSize = word_of_nat dimSize,
                     in_nElements = word_of_nat (numel t)\<rparr> # rest, offset')))"

text \<open>
  The outer loop, one launch per batch of \<open>CAT_ARRAY_BATCH_SIZE\<close> inputs. Only one,
  two and three dimensions have a kernel: the \<open>switch\<close> does nothing otherwise.
\<close>

function parallel_cat_batches ::
  "'a framework \<Rightarrow> nat \<Rightarrow> OutputTensorSizeStride \<Rightarrow> int \<Rightarrow> nat \<Rightarrow> nat \<Rightarrow> Tensor list \<Rightarrow> nat
     \<Rightarrow> 'a store \<Rightarrow> (cat_error + 'a store) option" where
  "parallel_cat_batches env data param dimension nDims launch ts offset st =
     (if ts = [] then Some (Inr st)
      else
        case fill_stackInputs dimension (take CAT_ARRAY_BATCH_SIZE ts) offset of
          Inl e \<Rightarrow> Some (Inl e)
        | Inr (stackInputs, offset') \<Rightarrow>
            if nDims = 1 \<or> nDims = 2 \<or> nDims = 3 then
              (if \<not> (0 \<le> dimension \<and> nat dimension < nDims) then Some (Inl (KernelFault OutOfBounds))
               else
                 case CatArrayBatchedCopy nDims (numCU env) (numWI env) (reorder env launch)
                        data stackInputs param (nat dimension)
                        (os_outputStride param ! nat dimension) (length stackInputs) st of
                   None \<Rightarrow> None
                 | Some (Inl f) \<Rightarrow> Some (Inl (KernelFault f))
                 | Some (Inr st') \<Rightarrow>
                     parallel_cat_batches env data param dimension nDims (Suc launch)
                       (drop CAT_ARRAY_BATCH_SIZE ts) offset' st')
            else
              parallel_cat_batches env data param dimension nDims (Suc launch)
                (drop CAT_ARRAY_BATCH_SIZE ts) offset' st)"
  by pat_completeness auto
termination
  by (relation "measure (\<lambda>(env, data, param, dimension, nDims, launch, ts, offset, st). length ts)")
     (auto simp: CAT_ARRAY_BATCH_SIZE_def)

declare parallel_cat_batches.simps [simp del]

definition parallel_cat ::
  "'a framework \<Rightarrow> Tensor \<Rightarrow> Tensor list \<Rightarrow> int \<Rightarrow> nat \<Rightarrow> 'a store \<Rightarrow> (cat_error + 'a store) option" where
  "parallel_cat env out inputs dimension nDims st =
     (if nDims > CAT_ARRAY_MAX_INPUT_DIMS then Some (Inl (KernelFault OutOfBounds))
      else if nDims > tdim out then Some (Inl IndexError)
      else
        let param = \<lparr>os_outputSize = map word_of_nat (take nDims (tsizes out)),
                     os_outputStride = map word_of_nat (take nDims (tstrides out))\<rparr>
        in parallel_cat_batches env (data_ptr out) param dimension nDims 0 inputs 0 st)"

subsection \<open>cat\<close>

definition should_skip :: "Tensor \<Rightarrow> bool" where
  "should_skip t = (\<not> is_defined t \<and> tdim t = 1)"

definition check_shape_except_dim :: "Tensor \<Rightarrow> Tensor \<Rightarrow> int \<Rightarrow> cat_error + unit" where
  "check_shape_except_dim first second dimension =
     (let first_dims = tdim first; second_dims = tdim second
      in if \<not> first_dims = second_dims then Inl DimensionMismatch
         else if list_all (\<lambda>d. int d = dimension \<or> tsizes first ! d = tsizes second ! d)
                   [0..<first_dims]
         then Inr ()
         else Inl SizeMismatch)"

text \<open>The loop that checks each input against the output for overlap.\<close>

fun overlap_check ::
  "(Tensor \<Rightarrow> Tensor \<Rightarrow> MemOverlapStatus) \<Rightarrow> Tensor \<Rightarrow> Tensor list \<Rightarrow> nat \<Rightarrow> cat_error + unit" where
  "overlap_check lap result [] i = Inr ()"
| "overlap_check lap result (t # ts) i =
     (if \<not> (lap result t \<noteq> OverlapPartial \<and> lap result t \<noteq> OverlapFull)
      then Inl (AliasingError i)
      else overlap_check lap result ts (Suc i))"

text \<open>
  The first loop over the inputs: it records whether an input was skipped and keeps
  the dimension count and the tensor of the last input that was not.
\<close>

definition scan_inputs :: "Tensor list \<Rightarrow> bool \<times> nat \<times> Tensor" where
  "scan_inputs inputs =
     fold (\<lambda>t (hasSkippedInput, nDims, notSkippedTensor).
             if should_skip t then (True, nDims, notSkippedTensor)
             else (hasSkippedInput, tdim t, t))
          inputs (False, 0, undefined_Tensor)"

text \<open>
  The second loop: shape check and the sum of the sizes along the concat dimension.
  The sum is an \<open>int64_t\<close>; leaving its range is undefined behaviour and ends the
  model with \<open>IntegerOverflow\<close>.
\<close>

fun shape_loop :: "Tensor \<Rightarrow> int \<Rightarrow> Tensor list \<Rightarrow> nat \<Rightarrow> cat_error + nat" where
  "shape_loop notSkippedTensor dimension [] cat_dim_size = Inr cat_dim_size"
| "shape_loop notSkippedTensor dimension (t # ts) cat_dim_size =
     (if should_skip t then shape_loop notSkippedTensor dimension ts cat_dim_size
      else
        case check_shape_except_dim notSkippedTensor t dimension of
          Inl e \<Rightarrow> Inl e
        | Inr u \<Rightarrow>
            (case tensor_size t dimension of
               Inl e \<Rightarrow> Inl e
             | Inr s \<Rightarrow>
                 if int cat_dim_size + int s \<ge> 2 ^ 63 then Inl IntegerOverflow
                 else shape_loop notSkippedTensor dimension ts (cat_dim_size + s)))"

text \<open>
  Everything \<open>cat\<close> does up to and including \<open>result.resize_\<close>: either an error, or
  the early return when no input remains (\<open>None\<close>), or the resized output with the
  store, the skip flag and the dimension count.
\<close>

definition cat_prepare ::
  "'a framework \<Rightarrow> Tensor \<Rightarrow> Tensor list \<Rightarrow> nat \<Rightarrow> int \<Rightarrow> 'a store
     \<Rightarrow> cat_error + (Tensor \<times> 'a store \<times> bool \<times> nat) option" where
  "cat_prepare env result inputs numInputs dimension st =
     (if \<not> castable env inputs (scalar_type result) then Inl TypeError
      else case overlap_check (get_overlap_status env) result inputs 0 of
        Inl e \<Rightarrow> Inl e
      | Inr u \<Rightarrow>
        if has_internal_overlap env result then Inl InternalOverlap
        else
          case scan_inputs (take numInputs inputs) of
            (hasSkippedInput, nDims, notSkippedTensor) \<Rightarrow>
              if \<not> is_defined notSkippedTensor then Inr None
              else if \<not> numInputs > 0 then Inl InvalidNumberOfInputs
              else if \<not> dimension \<ge> 0 then Inl InvalidDimension
              else
                let first_tensor = inputs ! 0;
                    ft_smf = suggest_memory_format env first_tensor
                in case shape_loop notSkippedTensor dimension (take numInputs inputs) 0 of
                     Inl e \<Rightarrow> Inl e
                   | Inr cat_dim_size \<Rightarrow>
                       let size = map (\<lambda>d. if int d = dimension then cat_dim_size
                                            else tsizes notSkippedTensor ! d) [0..<nDims];
                           (result', st') = resize_format (uninit env) size ft_smf result st
                       in Inr (Some (result', st', hasSkippedInput, nDims)))"

text \<open>The fallback loop: narrow the output and copy each input that is not skipped.\<close>

fun narrow_copy_loop ::
  "Tensor \<Rightarrow> int \<Rightarrow> Tensor list \<Rightarrow> nat \<Rightarrow> 'a store \<Rightarrow> cat_error + 'a store" where
  "narrow_copy_loop result dimension [] offset st = Inr st"
| "narrow_copy_loop result dimension (t # ts) offset st =
     (if should_skip t then narrow_copy_loop result dimension ts offset st
      else
        case tensor_size t dimension of
          Inl e \<Rightarrow> Inl e
        | Inr dimSize \<Rightarrow>
            (case narrow result dimension offset dimSize of
               Inl e \<Rightarrow> Inl e
             | Inr nt \<Rightarrow>
                 narrow_copy_loop result dimension ts (offset + dimSize) (copy_into nt t st)))"

text \<open>
  The outcome of \<open>cat\<close>: the error it raised, if any, with the output tensor and the
  store as they are at that moment; \<open>None\<close> when a kernel does not return.
\<close>

definition cat ::
  "'a framework \<Rightarrow> Tensor \<Rightarrow> Tensor list \<Rightarrow> nat \<Rightarrow> int \<Rightarrow> bool \<Rightarrow> 'a store
     \<Rightarrow> (cat_error option \<times> Tensor \<times> 'a store) option" where
  "cat env result inputs numInputs dimension allSameType st =
     (case cat_prepare env result inputs numInputs dimension st of
        Inl e \<Rightarrow> Some (Some e, result, st)
      | Inr None \<Rightarrow> Some (None, result, st)
      | Inr (Some (result', st', hasSkippedInput, nDims)) \<Rightarrow>
          let all32BitIndexable = list_all (canUse32BitIndexMath env) inputs;
              allContiguous = list_all (\<lambda>t. \<not> is_defined t \<or> is_contiguous t) inputs
          in if length inputs > 1 \<and> \<not> hasSkippedInput
                \<and> tdim result' \<le> CAT_ARRAY_MAX_INPUT_DIMS
                \<and> canUse32BitIndexMath env result' \<and> allContiguous
                \<and> all32BitIndexable \<and> allSameType
             then
               (case parallel_cat env result' inputs dimension nDims st' of
                  None \<Rightarrow> None
                | Some (Inl e) \<Rightarrow> Some (Some e, result', st')
                | Some (Inr st'') \<Rightarrow> Some (None, result', st''))
             else
               (case narrow_copy_loop result' dimension (take numInputs inputs) 0 st' of
                  Inl e \<Rightarrow> Some (Some e, result', st')
                | Inr st'' \<Rightarrow> Some (None, result', st'')))"

text \<open>
  \<open>impl::cat\<close> takes the number of inputs and the dimension as \<open>int\<close>, and \<open>_cat_out\<close>
  passes it \<open>atens.size()\<close> and its \<open>int64_t dim\<close>: the conversion keeps the low 32
  bits, read in two's complement.
\<close>

definition truncate_to_int :: "int \<Rightarrow> int" where
  "truncate_to_int v = (v + 2 ^ 31) mod 2 ^ 32 - 2 ^ 31"

text \<open>
  \<open>_cat_out\<close> (here \<open>cat_out\<close>): the overlap checks come first, then the choice between
  \<open>impl::cat\<close> and the vendor library's concat, which gets the dimension as it is. A
  count that the conversion made negative acts in \<open>impl::cat\<close> as zero does: no loop
  over the inputs runs, and the test \<open>numInputs > 0\<close> fails.
\<close>

definition cat_out ::
  "'a framework \<Rightarrow> Tensor \<Rightarrow> Tensor list \<Rightarrow> int \<Rightarrow> 'a store
     \<Rightarrow> (cat_error option \<times> Tensor \<times> 'a store) option" where
  "cat_out env out tensors d st =
     (case overlap_check (get_overlap_status env) out tensors 0 of
        Inl e \<Rightarrow> Some (Some e, out, st)
      | Inr u \<Rightarrow>
          if has_internal_overlap env out then Some (Some InternalOverlap, out, st)
          else if tensors = [] then Some (Some IndexError, out, st)
          else
            let firstType = scalar_type (tensors ! 0);
                allSameType = list_all (\<lambda>t. scalar_type t = firstType) tensors;
                allSameType = (allSameType \<and> scalar_type out = firstType)
            in if \<not> allSameType \<or> \<not> cat_valid env tensors then
                 (let atens = to_plain_if_needed env tensors
                  in cat env out atens (nat (truncate_to_int (int (length atens))))
                       (truncate_to_int d) allSameType st)
               else
                 (case onednn_concat env out tensors d st of
                    (out', st') \<Rightarrow> Some (None, out', st')))"

subsection \<open>Multi-indices\<close>

text \<open>
  The multi-index of the \<open>L\<close>-th element of a shape in row-major order, the offset of
  a multi-index under given strides, and the multi-indices of a shape.
\<close>

fun unravel :: "nat list \<Rightarrow> nat \<Rightarrow> nat list" where
  "unravel [] L = []"
| "unravel (d # ds) L = (L div prod_list ds) mod d # unravel ds L"

definition dot :: "nat list \<Rightarrow> nat list \<Rightarrow> nat" where
  "dot xs ts = sum_list (map2 (\<lambda>x t. x * t) xs ts)"

definition in_box :: "nat list \<Rightarrow> nat list \<Rightarrow> bool" where
  "in_box idx S = list_all2 (<) idx S"

text \<open>
  The index computation of \<open>CatArrIndexToOffset::compute\<close> on unbounded numbers, for
  the sizes \<open>s\<close> with the concat dimension already replaced and the strides \<open>t\<close>.
\<close>

fun offset_loop :: "nat list \<Rightarrow> nat list \<Rightarrow> nat \<Rightarrow> nat \<Rightarrow> nat \<Rightarrow> nat \<times> nat" where
  "offset_loop s t 0 li off = (off, li)"
| "offset_loop s t (Suc j) li off =
     offset_loop s t j (li div s ! Suc j) (off + (li mod s ! Suc j) * t ! Suc j)"

definition linear_offset :: "nat list \<Rightarrow> nat list \<Rightarrow> nat \<Rightarrow> nat" where
  "linear_offset s t L =
     (case offset_loop s t (length s - 1) L 0 of (off, li) \<Rightarrow> off + li * t ! 0)"

subsection \<open>The elements that a concatenation writes\<close>

text \<open>
  For the inputs \<open>ts\<close> concatenated along dimension \<open>c\<close> into a row-major output of
  sizes \<open>sz\<close>: the running offset of input \<open>k\<close> along \<open>c\<close>, the position in the
  output buffer of its \<open>L\<close>-th element, and the pairs \<open>(k, L)\<close> of all elements.
\<close>

definition off_of :: "nat \<Rightarrow> Tensor list \<Rightarrow> nat \<Rightarrow> nat" where
  "off_of c ts k = sum_list (map (\<lambda>t. tsizes t ! c) (take k ts))"

definition cat_pos :: "nat list \<Rightarrow> nat \<Rightarrow> Tensor list \<Rightarrow> nat \<Rightarrow> nat \<Rightarrow> nat" where
  "cat_pos sz c ts k L =
     off_of c ts k * contiguous_strides sz ! c
       + dot (unravel (sz[c := tsizes (ts ! k) ! c]) L) (contiguous_strides sz)"

definition all_pairs :: "Tensor list \<Rightarrow> (nat \<times> nat) set" where
  "all_pairs ts = {(k, L). k < length ts \<and> L < numel (ts ! k)}"

text \<open>
  The situation after \<open>result.resize_\<close>, in which both copy paths start: an output of at
  most three dimensions with fewer than \<open>2 ^ 32\<close> elements whose buffer \<open>out\<close> holds
  them, inputs with the sizes of the output except along \<open>c\<close>, where they fit one
  after the other, and every input in a buffer other than \<open>out\<close> that holds its
  elements. \<open>cat_inv\<close> relates a store to the store \<open>st0\<close> of that situation once the
  elements \<open>D\<close> have been copied: they are at their positions, and nothing else has
  changed.
\<close>

definition cat_setting :: "nat \<Rightarrow> nat list \<Rightarrow> nat \<Rightarrow> Tensor list \<Rightarrow> 'a store \<Rightarrow> bool" where
  "cat_setting out sz c ts st0 \<longleftrightarrow>
       1 \<le> length sz \<and> length sz \<le> 3 \<and> c < length sz \<and> prod_list sz < 2 ^ 32
     \<and> prod_list sz \<le> length (st0 out)
     \<and> sum_list (map (\<lambda>t. tsizes t ! c) ts) \<le> sz ! c
     \<and> (\<forall>t\<in>set ts. tsizes t = sz[c := tsizes t ! c] \<and> data_ptr t \<noteq> out
            \<and> numel t \<le> length (st0 (data_ptr t)))"

definition cat_inv ::
  "nat \<Rightarrow> nat list \<Rightarrow> nat \<Rightarrow> Tensor list \<Rightarrow> 'a store \<Rightarrow> (nat \<times> nat) set \<Rightarrow> 'a store \<Rightarrow> bool" where
  "cat_inv out sz c ts st0 D st \<longleftrightarrow>
       D \<subseteq> all_pairs ts
     \<and> (\<forall>b. b \<noteq> out \<longrightarrow> st b = st0 b)
     \<and> length (st out) = length (st0 out)
     \<and> (\<forall>k L. (k, L) \<in> D \<longrightarrow> st out ! cat_pos sz c ts k L = st0 (data_ptr (ts ! k)) ! L)
     \<and> (\<forall>p<length (st0 out). (\<forall>k L. (k, L) \<in> D \<longrightarrow> cat_pos sz c ts k L \<noteq> p)
            \<longrightarrow> st out ! p = st0 out ! p)"

definition row_major_result :: "Tensor \<Rightarrow> nat \<Rightarrow> nat list \<Rightarrow> bool" where
  "row_major_result r out sz \<longleftrightarrow>
     tsizes r = sz \<and> tstrides r = contiguous_strides sz \<and> data_ptr r = out"

text \<open>
  The metadata \<open>parallel_cat\<close> hands to the kernel for input \<open>k\<close>, and the elements one
  work-item of a launch copies, for a launch whose first input is \<open>base\<close>.
\<close>

definition meta_of :: "nat \<Rightarrow> Tensor list \<Rightarrow> nat \<Rightarrow> CatArrInputTensor" where
  "meta_of c ts k =
     \<lparr>in_input = data_ptr (ts ! k), in_offset = word_of_nat (off_of c ts k),
      in_dimSize = word_of_nat (tsizes (ts ! k) ! c),
      in_nElements = word_of_nat (numel (ts ! k))\<rparr>"

definition item_pairs :: "Tensor list \<Rightarrow> nat \<Rightarrow> nat \<Rightarrow> nat \<Rightarrow> nat \<times> nat \<times> nat \<Rightarrow> (nat \<times> nat) set" where
  "item_pairs ts base ngroups wg_size w =
     (case w of (wg, wi, inp) \<Rightarrow>
        {(k', L). k' = base + inp \<and> L < numel (ts ! (base + inp))
                   \<and> L mod (ngroups * wg_size) = wg * wg_size + wi})"

subsection \<open>Example data\<close>

text \<open>
  Example data: a framework in which two tensors overlap exactly when they share a
  buffer, on a device of two compute units with work-groups of two items that runs
  the work-items of every launch in reverse order; a 2x3 and a 1x3 tensor, an empty
  output, and a store that holds the two inputs.
\<close>

definition example_env :: "int framework" where
  "example_env =
     \<lparr>castable = (\<lambda>ts t. True),
      get_overlap_status = (\<lambda>a b. if data_ptr a = data_ptr b then OverlapFull else OverlapNo),
      has_internal_overlap = (\<lambda>t. False),
      suggest_memory_format = (\<lambda>t. Contiguous),
      canUse32BitIndexMath = (\<lambda>t. int (numel t) < 2 ^ 31 - 1),
      numCU = 2, numWI = 2,
      reorder = (\<lambda>n ws. rev ws),
      uninit = 0,
      cat_valid = (\<lambda>ts. False),
      onednn_concat = (\<lambda>out ts d st. (out, st)),
      to_plain_if_needed = (\<lambda>ts. ts)\<rparr>"

definition tensor_A :: Tensor where
  "tensor_A = \<lparr>is_defined = True, tsizes = [2, 3], tstrides = [3, 1], scalar_type = kInt, data_ptr = 1\<rparr>"

definition tensor_B :: Tensor where
  "tensor_B = \<lparr>is_defined = True, tsizes = [1, 3], tstrides = [3, 1], scalar_type = kInt, data_ptr = 2\<rparr>"

definition tensor_out :: Tensor where
  "tensor_out = \<lparr>is_defined = True, tsizes = [0], tstrides = [1], scalar_type = kInt, data_ptr = 0\<rparr>"

definition cat_store :: "int store" where
  "cat_store = (\<lambda>b. [])(1 := [1, 2, 3, 4, 5, 6], 2 := [7, 8, 9])"

text \<open>The inputs that \<open>cat\<close> does not skip, in order.\<close>

definition not_skipped :: "Tensor list \<Rightarrow> Tensor list" where
  "not_skipped inputs = filter (\<lambda>t. \<not> should_skip t) inputs"

text \<open>
  A framework whose overlap status is \<open>TOO_HARD\<close> as soon as one of the two tensors
  is not contiguous, whether or not they share a buffer; a four-element output on
  buffer 0, the view of every second element of that same buffer, and a two-element
  tensor on buffer 1.
\<close>

definition strided_env :: "int framework" where
  "strided_env = example_env
     \<lparr>get_overlap_status :=
        (\<lambda>a b. if \<not> is_contiguous a \<or> \<not> is_contiguous b then OverlapTooHard
               else if data_ptr a = data_ptr b then OverlapFull else OverlapNo)\<rparr>"

definition out4 :: Tensor where
  "out4 = \<lparr>is_defined = True, tsizes = [4], tstrides = [1], scalar_type = kInt, data_ptr = 0\<rparr>"

definition every_second :: Tensor where
  "every_second = \<lparr>is_defined = True, tsizes = [2], tstrides = [2], scalar_type = kInt, data_ptr = 0\<rparr>"

definition tensor_C :: Tensor where
  "tensor_C = \<lparr>is_defined = True, tsizes = [2], tstrides = [1], scalar_type = kInt, data_ptr = 1\<rparr>"

text \<open>The first two elements of buffer 0, as a contiguous tensor.\<close>

definition head2 :: Tensor where
  "head2 = \<lparr>is_defined = True, tsizes = [2], tstrides = [1], scalar_type = kInt, data_ptr = 0\<rparr>"

definition shared_store :: "int store" where
  "shared_store = (\<lambda>b. [])(0 := [1, 2, 3, 4], 1 := [7, 8])"

subsection \<open>Validation, aliasing and the shape of the output\<close>

lemma cat_example_fast_path: "map_option (\<lambda>(e, r, s). (e, tsizes r, tstrides r, s 0))
     (cat_out example_env tensor_out [tensor_A, tensor_B] 0 cat_store)
   = Some (None, [3, 3], [3, 1], [1, 2, 3, 4, 5, 6, 7, 8, 9])"
  by code_simp

lemma cat_example_fallback: "map_option (\<lambda>(e, r, s). (e, tsizes r, tstrides r, s 0))
     (cat example_env tensor_out [tensor_A, tensor_B] 2 0 False cat_store)
   = Some (None, [3, 3], [3, 1], [1, 2, 3, 4, 5, 6, 7, 8, 9])"
  by code_simp

lemma cat_example_dim1: "map_option (\<lambda>(e, r, s). (e, tsizes r, tstrides r, s 0))
     (cat_out example_env tensor_out [tensor_A, tensor_A] 1 cat_store)
   = Some (None, [2, 6], [6, 1], [1, 2, 3, 1, 2, 3, 4, 5, 6, 4, 5, 6])"
  by code_simp

lemma overlap_check_first:
  assumes "i < length ts"
    and "lap result (ts ! i) = OverlapPartial \<or> lap result (ts ! i) = OverlapFull"
  shows "\<exists>j\<le>i. overlap_check lap result ts k = Inl (AliasingError (k + j))
            \<and> (lap result (ts ! j) = OverlapPartial \<or> lap result (ts ! j) = OverlapFull)
            \<and> (\<forall>j'<j. lap result (ts ! j') \<noteq> OverlapPartial \<and> lap result (ts ! j') \<noteq> OverlapFull)"
  using assms
proof (induction ts arbitrary: i k)
  case Nil
  then show ?case by simp
next
  case (Cons t ts)
  show ?case
  proof (cases "lap result t = OverlapPartial \<or> lap result t = OverlapFull")
    case True
    then have "overlap_check lap result (t # ts) k = Inl (AliasingError (k + 0))"
      by auto
    with True show ?thesis by (intro exI[of _ 0]) auto
  next
    case False
    with Cons.prems obtain i' where i': "i = Suc i'" by (cases i) auto
    with Cons.prems have "i' < length ts"
      "lap result (ts ! i') = OverlapPartial \<or> lap result (ts ! i') = OverlapFull" by auto
    from Cons.IH[OF this, of "Suc k"] obtain j where j: "j \<le> i'"
      "overlap_check lap result ts (Suc k) = Inl (AliasingError (Suc k + j))"
      "lap result (ts ! j) = OverlapPartial \<or> lap result (ts ! j) = OverlapFull"
      "\<forall>j'<j. lap result (ts ! j') \<noteq> OverlapPartial \<and> lap result (ts ! j') \<noteq> OverlapFull"
      by blast
    have "\<forall>j'<Suc j. lap result ((t # ts) ! j') \<noteq> OverlapPartial \<and> lap result ((t # ts) ! j') \<noteq> OverlapFull"
      using j(4) False by (auto simp: less_Suc_eq_0_disj)
    then show ?thesis
      using j False i' by (intro exI[of _ "Suc j"]) auto
  qed
qed

text \<open>
  C5. When \<open>at::get_overlap_status\<close> reports the overlap of some input with the output
  as partial or full, \<open>_cat_out\<close> raises the aliasing error for the first such input,
  and the output tensor and the store are the ones it was called with: nothing was
  resized or written. \<open>impl::cat\<close>, which \<open>_cat_out\<close> calls only after this check
  passed, tests the type promotion first and the overlap second, and also leaves the
  output and the store as they were. The hypothesis is the answer of the status
  function and not the sharing of storage: of its four answers the code rejects these
  two.
\<close>

theorem cat_out_rejects_overlap_before_any_change:
  assumes "i < length tensors"
    and "get_overlap_status env out (tensors ! i) = OverlapPartial
         \<or> get_overlap_status env out (tensors ! i) = OverlapFull"
  shows "\<exists>j\<le>i. cat_out env out tensors d st = Some (Some (AliasingError j), out, st)
          \<and> (get_overlap_status env out (tensors ! j) = OverlapPartial
              \<or> get_overlap_status env out (tensors ! j) = OverlapFull)
          \<and> (cat env out tensors numInputs dimension allSameType st
                = Some (Some (if castable env tensors (scalar_type out) then AliasingError j
                              else TypeError), out, st))"
proof -
  from overlap_check_first[where lap = "get_overlap_status env" and result = out and k = 0, OF assms] obtain j where j: "j \<le> i"
    "overlap_check (get_overlap_status env) out tensors 0 = Inl (AliasingError j)"
    "get_overlap_status env out (tensors ! j) = OverlapPartial
              \<or> get_overlap_status env out (tensors ! j) = OverlapFull"
    by auto
  have a: "cat_out env out tensors d st = Some (Some (AliasingError j), out, st)"
    by (simp add: cat_out_def j(2))
  have b: "cat_prepare env out tensors numInputs dimension st
      = Inl (if castable env tensors (scalar_type out) then AliasingError j else TypeError)"
    by (simp add: cat_prepare_def j(2))
  have c: "cat env out tensors numInputs dimension allSameType st
                = Some (Some (if castable env tensors (scalar_type out) then AliasingError j
                              else TypeError), out, st)"
    by (simp add: cat_def b)
  show ?thesis using j(1,3) a c by blast
qed

theorem cat_out_rejects_overlap_witness:
  "(1::nat) < length [tensor_A, tensor_out]
   \<and> get_overlap_status example_env tensor_out ([tensor_A, tensor_out] ! 1) = OverlapFull
   \<and> map_option (\<lambda>(e, r, s). (e, r, s 0, s 1, s 2))
        (cat_out example_env tensor_out [tensor_A, tensor_out] 0 cat_store)
      = Some (Some (AliasingError 1), tensor_out, cat_store 0, cat_store 1, cat_store 2)"
proof -
  have h: "(1::nat) < length [tensor_A, tensor_out]"
    "get_overlap_status example_env tensor_out ([tensor_A, tensor_out] ! 1) = OverlapPartial
     \<or> get_overlap_status example_env tensor_out ([tensor_A, tensor_out] ! 1) = OverlapFull"
    by (simp_all add: example_env_def)
  from cat_out_rejects_overlap_before_any_change[OF h, of 0 cat_store]
  obtain j where j: "j \<le> 1"
    "cat_out example_env tensor_out [tensor_A, tensor_out] 0 cat_store
       = Some (Some (AliasingError j), tensor_out, cat_store)"
    "get_overlap_status example_env tensor_out ([tensor_A, tensor_out] ! j) = OverlapPartial
      \<or> get_overlap_status example_env tensor_out ([tensor_A, tensor_out] ! j) = OverlapFull"
    by blast
  have "j \<noteq> 0"
  proof
    assume "j = 0"
    with j(3) show False
      by (simp add: example_env_def tensor_A_def tensor_out_def)
  qed
  with j(1) have "j = 1" by simp
  then show ?thesis
    using j(2) by (simp add: example_env_def)
qed

text \<open>
  An input that shares the buffer of the output and whose status is \<open>TOO_HARD\<close> is
  not rejected: concatenating the view of every second element of the output's buffer
  with another tensor into that output raises nothing and overwrites the buffer, the
  elements of the input among them.
\<close>

theorem cat_out_accepts_overlap_reported_too_hard:
  "data_ptr every_second = data_ptr out4
   \<and> tensor_values out4 shared_store = [1, 2, 3, 4]
   \<and> tensor_values every_second shared_store = [1, 3]
   \<and> get_overlap_status strided_env out4 every_second = OverlapTooHard
   \<and> map_option (\<lambda>(e, r, s). (e, tsizes r, s 0, tensor_values every_second s))
        (cat_out strided_env out4 [every_second, tensor_C] 0 shared_store)
      = Some (None, [4], [1, 3, 7, 8], [1, 7])"
proof -
  have a: "data_ptr every_second = data_ptr out4"
    by (simp add: every_second_def out4_def)
  have b: "tensor_values out4 shared_store = [1, 2, 3, 4]"
    by code_simp
  have c: "tensor_values every_second shared_store = [1, 3]"
    by code_simp
  have d: "get_overlap_status strided_env out4 every_second = OverlapTooHard"
    by code_simp
  have e: "map_option (\<lambda>(e, r, s). (e, tsizes r, s 0, tensor_values every_second s))
        (cat_out strided_env out4 [every_second, tensor_C] 0 shared_store)
      = Some (None, [4], [1, 3, 7, 8], [1, 7])"
    by code_simp
  show ?thesis
    using a b c d e by (intro conjI)
qed

lemma scan_fold:
  "fold (\<lambda>t (hasSkippedInput, nDims, notSkippedTensor).
             if should_skip t then (True, nDims, notSkippedTensor)
             else (hasSkippedInput, tdim t, t)) inputs (hs0, nd0, nst0)
   = (hs0 \<or> (\<exists>t\<in>set inputs. should_skip t),
      if not_skipped inputs = [] then nd0 else tdim (last (not_skipped inputs)),
      if not_skipped inputs = [] then nst0 else last (not_skipped inputs))"
  by (induction inputs arbitrary: hs0 nd0 nst0) (auto simp: not_skipped_def)

lemma scan_inputs_eq:
  "scan_inputs inputs
   = (\<exists>t\<in>set inputs. should_skip t,
      if not_skipped inputs = [] then 0 else tdim (last (not_skipped inputs)),
      if not_skipped inputs = [] then undefined_Tensor else last (not_skipped inputs))"
  by (simp add: scan_inputs_def scan_fold)

lemma tensor_size_nonneg:
  "tensor_size t d = Inr s \<Longrightarrow> 0 \<le> d \<Longrightarrow> nat d < tdim t \<and> s = tsizes t ! nat d"
  by (auto simp: tensor_size_def Let_def split: if_splits)

lemma shape_loop_Inr:
  "shape_loop nst d ts acc = Inr csum \<Longrightarrow> 0 \<le> d \<Longrightarrow>
     csum = acc + sum_list (map (\<lambda>t. tsizes t ! nat d) (not_skipped ts))
     \<and> (\<forall>t\<in>set (not_skipped ts). check_shape_except_dim nst t d = Inr () \<and> nat d < tdim t)"
proof (induction ts arbitrary: acc)
  case Nil
  then show ?case by (simp add: not_skipped_def)
next
  case (Cons t ts)
  show ?case
  proof (cases "should_skip t")
    case True
    with Cons show ?thesis by (simp add: not_skipped_def)
  next
    case False
    from Cons.prems(1) False obtain s where
      c: "check_shape_except_dim nst t d = Inr ()" and
      s: "tensor_size t d = Inr s" and
      r: "shape_loop nst d ts (acc + s) = Inr csum"
      by (auto split: sum.splits if_splits)
    from tensor_size_nonneg[OF s Cons.prems(2)] have s': "nat d < tdim t" "s = tsizes t ! nat d"
      by auto
    from Cons.IH[OF r Cons.prems(2)] show ?thesis
      using False c s' by (simp add: not_skipped_def)
  qed
qed

lemma check_shape_Inr:
  "check_shape_except_dim first second d = Inr () \<Longrightarrow>
     tdim first = tdim second
     \<and> (\<forall>k<tdim first. int k \<noteq> d \<longrightarrow> tsizes first ! k = tsizes second ! k)"
  by (auto simp: check_shape_except_dim_def Let_def list_all_iff split: if_splits)

text \<open>
  What a passing validation leaves: the output resized to the sizes of the first input
  that is not skipped, with the sum of the sizes along the concat dimension.
\<close>

lemma cat_prepare_shape:
  assumes "cat_prepare env result inputs (length inputs) dimension st = Inr r"
    and "not_skipped inputs \<noteq> []"
    and "\<forall>t\<in>set inputs. \<not> is_defined t \<longrightarrow> should_skip t"
  shows "\<exists>result' st' hs.
       r = Some (result', st', hs, tdim (hd (not_skipped inputs)))
     \<and> 0 \<le> dimension \<and> nat dimension < tdim (hd (not_skipped inputs))
     \<and> tsizes result' = (tsizes (hd (not_skipped inputs)))
          [nat dimension := sum_list (map (\<lambda>t. tsizes t ! nat dimension) (not_skipped inputs))]"
proof -
  let ?ns = "not_skipped inputs"
  let ?last = "last ?ns"
  let ?first = "hd ?ns"
  have last_in: "?last \<in> set ?ns" and first_in: "?first \<in> set ?ns"
    using assms(2) by auto
  then have "?last \<in> set inputs" "\<not> should_skip ?last"
    by (auto simp: not_skipped_def)
  with assms(3) have def: "is_defined ?last" by blast
  have scan: "scan_inputs inputs = (\<exists>t\<in>set inputs. should_skip t, tdim ?last, ?last)"
    using assms(2) by (simp add: scan_inputs_eq)
  from assms(1) have dim0: "0 \<le> dimension"
    by (auto simp: cat_prepare_def scan def split: sum.splits if_splits)
  from assms(1) obtain csum where
    sl: "shape_loop ?last dimension inputs 0 = Inr csum"
    and r: "r = Some (fst (resize_format (uninit env)
                 (map (\<lambda>k. if int k = dimension then csum else tsizes ?last ! k) [0..<tdim ?last])
                 (suggest_memory_format env (inputs ! 0)) result st),
               snd (resize_format (uninit env)
                 (map (\<lambda>k. if int k = dimension then csum else tsizes ?last ! k) [0..<tdim ?last])
                 (suggest_memory_format env (inputs ! 0)) result st),
               \<exists>t\<in>set inputs. should_skip t, tdim ?last)"
    by (auto simp: cat_prepare_def scan def Let_def split: sum.splits if_splits prod.splits)
  from shape_loop_Inr[OF sl dim0] have
    csum: "csum = sum_list (map (\<lambda>t. tsizes t ! nat dimension) ?ns)"
    and chk: "\<forall>t\<in>set ?ns. check_shape_except_dim ?last t dimension = Inr () \<and> nat dimension < tdim t"
    by auto
  from chk first_in have cf: "check_shape_except_dim ?last ?first dimension = Inr ()"
    and dlt: "nat dimension < tdim ?first" by auto
  from check_shape_Inr[OF cf] have same: "tdim ?last = tdim ?first"
    "\<forall>k<tdim ?last. int k \<noteq> dimension \<longrightarrow> tsizes ?last ! k = tsizes ?first ! k" by auto
  obtain result' st' where rs: "resize_format (uninit env)
                 (map (\<lambda>k. if int k = dimension then csum else tsizes ?last ! k) [0..<tdim ?last])
                 (suggest_memory_format env (inputs ! 0)) result st = (result', st')"
    by (cases "resize_format (uninit env)
                 (map (\<lambda>k. if int k = dimension then csum else tsizes ?last ! k) [0..<tdim ?last])
                 (suggest_memory_format env (inputs ! 0)) result st") auto
  have sz: "tsizes result' = map (\<lambda>k. if int k = dimension then csum else tsizes ?last ! k) [0..<tdim ?last]"
    using rs by (auto simp: resize_format_def)
  have shape: "tsizes result' = (tsizes ?first)[nat dimension := csum]"
    unfolding sz using same dim0
    by (intro nth_equalityI) (auto simp: tdim_def nth_list_update)
  have r': "r = Some (result', st', \<exists>t\<in>set inputs. should_skip t, tdim ?first)"
    using r rs same by simp
  show ?thesis
    using r' dim0 dlt shape csum by blast
qed

subsection \<open>A valid input set passes the validation\<close>

lemma overlap_check_ok:
  "\<forall>t\<in>set ts. lap result t \<noteq> OverlapPartial \<and> lap result t \<noteq> OverlapFull \<Longrightarrow>
     overlap_check lap result ts k = Inr ()"
  by (induction ts arbitrary: k) simp_all

lemma check_shape_ok:
  "tdim a = tdim b \<Longrightarrow> \<forall>k<tdim a. int k \<noteq> d \<longrightarrow> tsizes a ! k = tsizes b ! k \<Longrightarrow>
     check_shape_except_dim a b d = Inr ()"
  by (auto simp: check_shape_except_dim_def Let_def list_all_iff)

lemma tensor_size_ok:
  "0 \<le> d \<Longrightarrow> nat d < tdim t \<Longrightarrow> tensor_size t d = Inr (tsizes t ! nat d)"
  by (auto simp: tensor_size_def Let_def)

lemma shape_loop_ok:
  assumes "0 \<le> d"
  shows "\<forall>t\<in>set (not_skipped ts). check_shape_except_dim nst t d = Inr () \<and> nat d < tdim t \<Longrightarrow>
     int acc + int (sum_list (map (\<lambda>t. tsizes t ! nat d) (not_skipped ts))) < 2 ^ 63 \<Longrightarrow>
     shape_loop nst d ts acc
       = Inr (acc + sum_list (map (\<lambda>t. tsizes t ! nat d) (not_skipped ts)))"
proof (induction ts arbitrary: acc)
  case Nil
  then show ?case by (simp add: not_skipped_def)
next
  case (Cons t ts)
  show ?case
  proof (cases "should_skip t")
    case True
    then show ?thesis using Cons by (simp add: not_skipped_def)
  next
    case False
    then have ns: "not_skipped (t # ts) = t # not_skipped ts" by (simp add: not_skipped_def)
    have c: "check_shape_except_dim nst t d = Inr ()" and dt: "nat d < tdim t"
      using Cons.prems(1) ns by auto
    have sz: "tensor_size t d = Inr (tsizes t ! nat d)"
      using assms dt by (rule tensor_size_ok)
    have b: "int acc + int (tsizes t ! nat d) < 2 ^ 63"
      using Cons.prems(2) ns by simp
    have ih: "shape_loop nst d ts (acc + tsizes t ! nat d)
       = Inr (acc + tsizes t ! nat d + sum_list (map (\<lambda>t. tsizes t ! nat d) (not_skipped ts)))"
      by (rule Cons.IH) (use Cons.prems ns in auto)
    show ?thesis using False c sz b ih ns by simp
  qed
qed

lemma cat_prepare_ok:
  assumes "castable env inputs (scalar_type result)"
    and "\<forall>t\<in>set inputs. get_overlap_status env result t \<noteq> OverlapPartial
                        \<and> get_overlap_status env result t \<noteq> OverlapFull"
    and "\<not> has_internal_overlap env result"
    and "not_skipped inputs \<noteq> []"
    and "\<forall>t\<in>set inputs. \<not> is_defined t \<longrightarrow> should_skip t"
    and "0 \<le> dimension" "nat dimension < tdim (hd (not_skipped inputs))"
    and "\<forall>t\<in>set (not_skipped inputs). tdim t = tdim (hd (not_skipped inputs))
           \<and> (\<forall>k<tdim t. k \<noteq> nat dimension
                 \<longrightarrow> tsizes t ! k = tsizes (hd (not_skipped inputs)) ! k)"
    and "int (sum_list (map (\<lambda>t. tsizes t ! nat dimension) (not_skipped inputs))) < 2 ^ 63"
  shows "\<exists>r. cat_prepare env result inputs (length inputs) dimension st = Inr r"
proof -
  let ?ns = "not_skipped inputs"
  let ?last = "last ?ns"
  let ?first = "hd ?ns"
  have last_in: "?last \<in> set ?ns" using assms(4) by simp
  then have "?last \<in> set inputs" "\<not> should_skip ?last" by (auto simp: not_skipped_def)
  with assms(5) have def: "is_defined ?last" by blast
  have scan: "scan_inputs inputs = (\<exists>t\<in>set inputs. should_skip t, tdim ?last, ?last)"
    using assms(4) by (simp add: scan_inputs_eq)
  have ne: "0 < length inputs" using assms(4) by (auto simp: not_skipped_def)
  have lastd: "tdim ?last = tdim ?first"
    "\<forall>k<tdim ?last. k \<noteq> nat dimension \<longrightarrow> tsizes ?last ! k = tsizes ?first ! k"
    using assms(8) last_in by auto
  have chk: "\<forall>t\<in>set ?ns. check_shape_except_dim ?last t dimension = Inr () \<and> nat dimension < tdim t"
  proof
    fix t assume t: "t \<in> set ?ns"
    with assms(8) have td: "tdim t = tdim ?first"
      "\<forall>k<tdim t. k \<noteq> nat dimension \<longrightarrow> tsizes t ! k = tsizes ?first ! k" by auto
    have "check_shape_except_dim ?last t dimension = Inr ()"
    proof (rule check_shape_ok)
      show "tdim ?last = tdim t" using lastd td by simp
      show "\<forall>k<tdim ?last. int k \<noteq> dimension \<longrightarrow> tsizes ?last ! k = tsizes t ! k"
        using lastd td assms(6) by auto
    qed
    then show "check_shape_except_dim ?last t dimension = Inr () \<and> nat dimension < tdim t"
      using td assms(7) by simp
  qed
  have sl: "shape_loop ?last dimension inputs 0
       = Inr (0 + sum_list (map (\<lambda>t. tsizes t ! nat dimension) ?ns))"
    by (rule shape_loop_ok[OF assms(6) chk]) (use assms(9) in simp)
  have oc: "overlap_check (get_overlap_status env) result inputs 0 = Inr ()"
    by (rule overlap_check_ok) (use assms(2) in blast)
  show ?thesis
    using assms(1,3,6) def ne
    by (simp add: cat_prepare_def oc scan sl Let_def split: prod.splits)
qed

subsection \<open>The copy kernels return\<close>

text \<open>
  The grid-stride loop of \<open>CatArrayBatchedCopy\<close> ends when adding the stride to the
  index cannot wrap around: the element count of the input plus the number of
  work-items of one input is at most \<open>2 ^ 32\<close>. Then every work-item returns, in
  whatever order the device runs them, and so do every launch and \<open>cat\<close> itself.
\<close>

lemma batched_copy_loop_returns:
  assumes "stride \<noteq> 0" "unat nElements + unat stride \<le> 2 ^ 32"
  shows "\<exists>r. batched_copy_loop body stride nElements tid st = Some r"
proof (induction "unat nElements - unat tid" arbitrary: tid st rule: less_induct)
  case less
  show ?case
  proof (cases "tid < nElements")
    case False
    then show ?thesis by (subst batched_copy_loop.simps) simp
  next
    case True
    then have lt: "unat tid < unat nElements" by (simp add: word_less_nat_alt)
    have "unat tid + unat stride < 2 ^ LENGTH(32)"
      using lt assms(2) by simp
    then have u: "unat (tid + stride) = unat tid + unat stride"
      by (simp only: unat_add_lem)
    have "unat stride \<noteq> 0" using assms(1) by (simp add: unat_eq_0)
    then have dec: "unat nElements - unat (tid + stride) < unat nElements - unat tid"
      using lt u by simp
    show ?thesis
    proof (cases "body tid st")
      case (Inl e)
      then show ?thesis using True by (subst batched_copy_loop.simps) simp
    next
      case (Inr st')
      from less[OF dec, of st'] obtain r where
        "batched_copy_loop body stride nElements (tid + stride) st' = Some r" by blast
      then show ?thesis using True Inr by (subst batched_copy_loop.simps) simp
    qed
  qed
qed

lemma item_returns:
  assumes "unat (in_nElements (inputs ! inp)) = 0
     \<or> (word_of_nat ngroups * word_of_nat wg_size \<noteq> (0 :: IndexType)
        \<and> unat (in_nElements (inputs ! inp))
            + unat (word_of_nat ngroups * word_of_nat wg_size :: IndexType) \<le> 2 ^ 32)"
  shows "\<exists>r. CatArrayBatchedCopy_item Dims output inputs os concatDim dimStride ngroups wg_size
               (wg, wi, inp) st = Some r"
proof (cases "unat (in_nElements (inputs ! inp)) = 0")
  case True
  then have "in_nElements (inputs ! inp) = 0" by (simp add: unat_eq_0)
  then show ?thesis by (simp add: CatArrayBatchedCopy_item_def Let_def)
next
  case False
  with assms have a: "word_of_nat ngroups * word_of_nat wg_size \<noteq> (0 :: IndexType)"
    "unat (in_nElements (inputs ! inp))
            + unat (word_of_nat ngroups * word_of_nat wg_size :: IndexType) \<le> 2 ^ 32"
    by auto
  show ?thesis
    by (auto simp: CatArrayBatchedCopy_item_def Let_def intro: batched_copy_loop_returns[OF a])
qed

lemma parallel_for_opt_returns:
  "(\<And>w st. w \<in> set ws \<Longrightarrow> \<exists>r. item_fn w st = Some r) \<Longrightarrow>
     \<exists>r. parallel_for_opt item_fn ws st = Some r"
proof (induction ws arbitrary: st)
  case Nil
  then show ?case by simp
next
  case (Cons w ws)
  from Cons.prems[of w st] obtain r where r: "item_fn w st = Some r" by auto
  show ?case
  proof (cases r)
    case (Inl e)
    then show ?thesis using r by simp
  next
    case (Inr st')
    have "\<exists>r. parallel_for_opt item_fn ws st' = Some r"
      by (rule Cons.IH) (use Cons.prems in auto)
    then show ?thesis using r Inr by simp
  qed
qed

lemma work_items_set:
  "(wg, wi, inp) \<in> set (work_items ngroups wg_size batchCounter)
     \<longleftrightarrow> wg < ngroups \<and> wi < wg_size \<and> inp < batchCounter"
  by (auto simp: work_items_def image_iff)

lemma word_of_nat_bounds:
  assumes "0 < G" "n + G \<le> 2 ^ 32"
  shows "unat (word_of_nat n :: IndexType) = 0
     \<or> (word_of_nat G \<noteq> (0 :: IndexType)
        \<and> unat (word_of_nat n :: IndexType) + unat (word_of_nat G :: IndexType) \<le> 2 ^ 32)"
proof (cases "n = 0")
  case True
  then show ?thesis by simp
next
  case False
  with assms have g: "G < 2 ^ 32" and n: "n < 2 ^ 32" by simp_all
  have ug: "unat (word_of_nat G :: IndexType) = G" using g by (simp add: unat_of_nat)
  have un: "unat (word_of_nat n :: IndexType) = n" using n by (simp add: unat_of_nat)
  have "word_of_nat G \<noteq> (0 :: IndexType)"
    using ug assms(1) by (metis unat_0 less_numeral_extra(3))
  then show ?thesis using ug un assms(2) by simp
qed

lemma CatArrayBatchedCopy_returns:
  assumes "set (reord (work_items (numCU' * numWI' div 2 div numWI') numWI' batchCounter))
             = set (work_items (numCU' * numWI' div 2 div numWI') numWI' batchCounter)"
    and "\<forall>inp<batchCounter. \<exists>n. in_nElements (inputs ! inp) = word_of_nat n
            \<and> n + numCU' * numWI' div 2 \<le> 2 ^ 32"
  shows "\<exists>r. CatArrayBatchedCopy Dims numCU' numWI' reord output inputs os concatDim dimStride
               batchCounter st = Some r"
proof (cases "numWI' = 0 \<or> (numCU' * numWI' div 2) mod numWI' \<noteq> 0")
  case True
  then show ?thesis by (auto simp: CatArrayBatchedCopy_def Let_def)
next
  case False
  let ?G = "numCU' * numWI' div 2"
  let ?ng = "?G div numWI'"
  from False have wi: "0 < numWI'" and dv: "?ng * numWI' = ?G" by auto
  have "\<exists>r. parallel_for_opt
          (CatArrayBatchedCopy_item Dims output inputs os concatDim dimStride ?ng numWI')
          (reord (work_items ?ng numWI' batchCounter)) st = Some r"
  proof (rule parallel_for_opt_returns)
    fix w st'
    assume "w \<in> set (reord (work_items ?ng numWI' batchCounter))"
    then have w: "w \<in> set (work_items ?ng numWI' batchCounter)" using assms(1) by simp
    obtain wg wi' inp where weq: "w = (wg, wi', inp)" by (cases w) auto
    with w have b: "wg < ?ng" "inp < batchCounter" by (simp_all add: work_items_set)
    then have gpos: "0 < ?G" using dv wi by (metis gr0I mult_is_0 not_less0)
    from assms(2) b obtain n where n: "in_nElements (inputs ! inp) = word_of_nat n"
      "n + ?G \<le> 2 ^ 32" by blast
    have st: "word_of_nat ?ng * word_of_nat numWI' = (word_of_nat ?G :: IndexType)"
      using dv by (metis of_nat_mult)
    show "\<exists>r. CatArrayBatchedCopy_item Dims output inputs os concatDim dimStride ?ng numWI' w st'
            = Some r"
      unfolding weq
      by (rule item_returns) (use word_of_nat_bounds[OF gpos n(2)] in \<open>simp add: n(1) st\<close>)
  qed
  then show ?thesis using False by (simp add: CatArrayBatchedCopy_def Let_def)
qed

lemma fill_stackInputs_elems:
  "fill_stackInputs d ts off = Inr (ms, off') \<Longrightarrow>
     length ms = length ts \<and> (\<forall>i<length ts. in_nElements (ms ! i) = word_of_nat (numel (ts ! i)))"
proof (induction ts arbitrary: off ms off')
  case Nil
  then show ?case by simp
next
  case (Cons t ts)
  from Cons.prems obtain s rest where
    r: "fill_stackInputs d ts (off + s) = Inr (rest, off')"
    and ms: "ms = \<lparr>in_input = data_ptr t, in_offset = word_of_nat off,
                     in_dimSize = word_of_nat s,
                     in_nElements = word_of_nat (numel t)\<rparr> # rest"
    by (auto split: sum.splits)
  from Cons.IH[OF r] show ?case
    by (auto simp: ms nth_Cons split: nat.splits)
qed

lemma parallel_cat_batches_returns:
  assumes ro: "\<forall>n ws. set (reorder env n ws) = set ws"
  shows "\<forall>t\<in>set ts. numel t + numCU env * numWI env div 2 \<le> 2 ^ 32 \<Longrightarrow>
     \<exists>r. parallel_cat_batches env data param dimension nDims launch ts offset st = Some r"
proof (induction "length ts" arbitrary: ts launch offset st rule: less_induct)
  case less
  show ?case
  proof (cases "ts = []")
    case True
    then show ?thesis by (subst parallel_cat_batches.simps) simp
  next
    case ne: False
    have shorter: "length (drop CAT_ARRAY_BATCH_SIZE ts) < length ts"
      using ne by (simp add: CAT_ARRAY_BATCH_SIZE_def)
    have rest: "\<forall>t\<in>set (drop CAT_ARRAY_BATCH_SIZE ts).
                     numel t + numCU env * numWI env div 2 \<le> 2 ^ 32"
      using less.prems by (meson in_set_dropD)
    have ih: "\<exists>r. parallel_cat_batches env data param dimension nDims l
                (drop CAT_ARRAY_BATCH_SIZE ts) off' st' = Some r" for l off' st'
      by (rule less.hyps[OF shorter rest])
    show ?thesis
    proof (cases "fill_stackInputs dimension (take CAT_ARRAY_BATCH_SIZE ts) offset")
      case (Inl e)
      then show ?thesis using ne by (subst parallel_cat_batches.simps) simp
    next
      case (Inr p)
      obtain stackInputs offset' where p: "p = (stackInputs, offset')" by (cases p) auto
      note fill = Inr[unfolded p]
      show ?thesis
      proof (cases "nDims = 1 \<or> nDims = 2 \<or> nDims = 3")
        case False
        then show ?thesis using ne fill ih[of "Suc launch" offset' st]
          by (subst parallel_cat_batches.simps) simp
      next
        case True
        show ?thesis
        proof (cases "0 \<le> dimension \<and> nat dimension < nDims")
          case False
          then show ?thesis using ne fill True
            by (subst parallel_cat_batches.simps) auto
        next
          case d: True
          from fill_stackInputs_elems[OF fill] have
            len: "length stackInputs = length (take CAT_ARRAY_BATCH_SIZE ts)" and
            el: "\<forall>i<length (take CAT_ARRAY_BATCH_SIZE ts).
                   in_nElements (stackInputs ! i)
                     = word_of_nat (numel (take CAT_ARRAY_BATCH_SIZE ts ! i))"
            by auto
          have "\<exists>r. CatArrayBatchedCopy nDims (numCU env) (numWI env) (reorder env launch)
                        data stackInputs param (nat dimension)
                        (os_outputStride param ! nat dimension) (length stackInputs) st = Some r"
          proof (rule CatArrayBatchedCopy_returns)
            show "set (reorder env launch
                    (work_items (numCU env * numWI env div 2 div numWI env) (numWI env)
                       (length stackInputs)))
                  = set (work_items (numCU env * numWI env div 2 div numWI env) (numWI env)
                       (length stackInputs))"
              using ro by simp
            show "\<forall>inp<length stackInputs. \<exists>n. in_nElements (stackInputs ! inp) = word_of_nat n
                     \<and> n + numCU env * numWI env div 2 \<le> 2 ^ 32"
            proof (intro allI impI)
              fix inp assume i: "inp < length stackInputs"
              then have "take CAT_ARRAY_BATCH_SIZE ts ! inp \<in> set (take CAT_ARRAY_BATCH_SIZE ts)"
                using len by (metis nth_mem)
              then have "take CAT_ARRAY_BATCH_SIZE ts ! inp \<in> set ts" by (meson in_set_takeD)
              then have "numel (take CAT_ARRAY_BATCH_SIZE ts ! inp)
                           + numCU env * numWI env div 2 \<le> 2 ^ 32"
                using less.prems by blast
              then show "\<exists>n. in_nElements (stackInputs ! inp) = word_of_nat n
                     \<and> n + numCU env * numWI env div 2 \<le> 2 ^ 32"
                using el i len by auto
            qed
          qed
          then obtain r where r: "CatArrayBatchedCopy nDims (numCU env) (numWI env)
                        (reorder env launch) data stackInputs param (nat dimension)
                        (os_outputStride param ! nat dimension) (length stackInputs) st = Some r"
            by blast
          show ?thesis
          proof (cases r)
            case (Inl f)
            then show ?thesis using ne fill True d r
              by (subst parallel_cat_batches.simps) simp
          next
            case st': (Inr st')
            from ih[of "Suc launch" offset' st'] show ?thesis
              using ne fill True d r st'
              by (subst parallel_cat_batches.simps) simp
          qed
        qed
      qed
    qed
  qed
qed

lemma parallel_cat_returns:
  assumes "\<forall>n ws. set (reorder env n ws) = set ws"
    and "\<forall>t\<in>set inputs. numel t + numCU env * numWI env div 2 \<le> 2 ^ 32"
  shows "\<exists>r. parallel_cat env out inputs dimension nDims st = Some r"
  using parallel_cat_batches_returns[OF assms]
  by (simp add: parallel_cat_def Let_def)

lemma cat_returns:
  assumes "\<forall>n ws. set (reorder env n ws) = set ws"
    and "\<forall>t\<in>set inputs. canUse32BitIndexMath env t
           \<longrightarrow> numel t + numCU env * numWI env div 2 \<le> 2 ^ 32"
    and "cat_prepare env result inputs numInputs dimension st
           = Inr (Some (result', st', hs, nDims))"
  shows "\<exists>e st''. cat env result inputs numInputs dimension allSameType st
           = Some (e, result', st'')"
proof (cases "length inputs > 1 \<and> \<not> hs \<and> tdim result' \<le> CAT_ARRAY_MAX_INPUT_DIMS
                \<and> canUse32BitIndexMath env result'
                \<and> list_all (\<lambda>t. \<not> is_defined t \<or> is_contiguous t) inputs
                \<and> list_all (canUse32BitIndexMath env) inputs \<and> allSameType")
  case True
  then have "\<forall>t\<in>set inputs. numel t + numCU env * numWI env div 2 \<le> 2 ^ 32"
    using assms(2) by (simp add: list_all_iff)
  from parallel_cat_returns[OF assms(1) this] obtain r where
    "parallel_cat env result' inputs dimension nDims st' = Some r" by blast
  then show ?thesis
    using True assms(3) by (cases r) (simp_all add: cat_def Let_def)
next
  case False
  then show ?thesis
    using assms(3)
    by (cases "narrow_copy_loop result' dimension (take numInputs inputs) 0 st'")
       (auto simp: cat_def Let_def)
qed

subsection \<open>The shape of the output\<close>

text \<open>
  C4. For a valid input set (the types can be cast to the output's, no input is
  reported to overlap the output, the output has no internal overlap, some input is
  not skipped, every undefined input is a skipped placeholder, the concat dimension
  is one of the dimensions, the inputs that are not skipped have the same number of
  dimensions and the same sizes except along the concat dimension, and the sum of
  the sizes along it fits an \<open>int64_t\<close>), on a device that runs every work-item of a
  launch and whose 32-bit indexable tensors leave room for the grid stride, \<open>cat\<close>
  returns, and the output tensor it returns has the sizes of the first input that is
  not skipped, with the size along the concat dimension replaced by the sum of the
  sizes of all inputs that are not skipped along that dimension.
\<close>

theorem cat_resizes_output_to_concatenated_shape:
  assumes "castable env inputs (scalar_type result)"
    and "\<forall>t\<in>set inputs. get_overlap_status env result t \<noteq> OverlapPartial
                        \<and> get_overlap_status env result t \<noteq> OverlapFull"
    and "\<not> has_internal_overlap env result"
    and "not_skipped inputs \<noteq> []"
    and "\<forall>t\<in>set inputs. \<not> is_defined t \<longrightarrow> should_skip t"
    and "0 \<le> dimension" "nat dimension < tdim (hd (not_skipped inputs))"
    and "\<forall>t\<in>set (not_skipped inputs). tdim t = tdim (hd (not_skipped inputs))
           \<and> (\<forall>k<tdim t. k \<noteq> nat dimension
                 \<longrightarrow> tsizes t ! k = tsizes (hd (not_skipped inputs)) ! k)"
    and "int (sum_list (map (\<lambda>t. tsizes t ! nat dimension) (not_skipped inputs))) < 2 ^ 63"
    and "\<forall>n ws. set (reorder env n ws) = set ws"
    and "\<forall>t\<in>set inputs. canUse32BitIndexMath env t
           \<longrightarrow> numel t + numCU env * numWI env div 2 \<le> 2 ^ 32"
  shows "\<exists>e result' st''.
       cat env result inputs (length inputs) dimension allSameType st = Some (e, result', st'')
     \<and> tsizes result' = (tsizes (hd (not_skipped inputs)))
          [nat dimension := sum_list (map (\<lambda>t. tsizes t ! nat dimension) (not_skipped inputs))]"
proof -
  from cat_prepare_ok[OF assms(1-9)] obtain r where
    r: "cat_prepare env result inputs (length inputs) dimension st = Inr r" by blast
  from cat_prepare_shape[OF r assms(4,5)] obtain result' st' hs where
    p: "r = Some (result', st', hs, tdim (hd (not_skipped inputs)))"
    and sh: "tsizes result' = (tsizes (hd (not_skipped inputs)))
          [nat dimension := sum_list (map (\<lambda>t. tsizes t ! nat dimension) (not_skipped inputs))]"
    by blast
  from cat_returns[OF assms(10,11) r[unfolded p]] obtain e st'' where
    "cat env result inputs (length inputs) dimension allSameType st = Some (e, result', st'')"
    by blast
  with sh show ?thesis by blast
qed

theorem cat_resizes_output_witness:
  "\<exists>e result' st''.
       cat example_env tensor_out [tensor_A, tensor_B] (length [tensor_A, tensor_B]) 0 True cat_store
         = Some (e, result', st'')
     \<and> tsizes result' = [3, 3]"
proof -
  have ns: "not_skipped [tensor_A, tensor_B] = [tensor_A, tensor_B]"
    by (simp add: not_skipped_def should_skip_def tensor_A_def tensor_B_def)
  have h1: "castable example_env [tensor_A, tensor_B] (scalar_type tensor_out)"
    by (simp add: example_env_def)
  have h2: "\<forall>t\<in>set [tensor_A, tensor_B].
       get_overlap_status example_env tensor_out t \<noteq> OverlapPartial
     \<and> get_overlap_status example_env tensor_out t \<noteq> OverlapFull"
    by (simp add: example_env_def tensor_A_def tensor_B_def tensor_out_def)
  have h3: "\<not> has_internal_overlap example_env tensor_out"
    by (simp add: example_env_def)
  have h4: "not_skipped [tensor_A, tensor_B] \<noteq> []" by (simp add: ns)
  have h5: "\<forall>t\<in>set [tensor_A, tensor_B]. \<not> is_defined t \<longrightarrow> should_skip t"
    by (simp add: tensor_A_def tensor_B_def)
  have h6: "(0::int) \<le> 0" by simp
  have h7: "nat 0 < tdim (hd (not_skipped [tensor_A, tensor_B]))"
    unfolding ns by (simp add: tensor_A_def tdim_def)
  have h8: "\<forall>t\<in>set (not_skipped [tensor_A, tensor_B]).
       tdim t = tdim (hd (not_skipped [tensor_A, tensor_B]))
     \<and> (\<forall>k<tdim t. k \<noteq> nat 0
           \<longrightarrow> tsizes t ! k = tsizes (hd (not_skipped [tensor_A, tensor_B])) ! k)"
    unfolding ns by (simp add: tensor_A_def tensor_B_def tdim_def less_Suc_eq numeral_2_eq_2)
  have h9: "int (sum_list (map (\<lambda>t. tsizes t ! nat 0) (not_skipped [tensor_A, tensor_B]))) < 2 ^ 63"
    unfolding ns by (simp add: tensor_A_def tensor_B_def)
  have h10: "\<forall>n ws. set (reorder example_env n ws) = set ws"
    by (simp add: example_env_def)
  have h11: "\<forall>t\<in>set [tensor_A, tensor_B]. canUse32BitIndexMath example_env t
           \<longrightarrow> numel t + numCU example_env * numWI example_env div 2 \<le> 2 ^ 32"
    by (simp add: example_env_def tensor_A_def tensor_B_def numel_def)
  from cat_resizes_output_to_concatenated_shape[OF h1 h2 h3 h4 h5 h6 h7 h8 h9 h10 h11, of True cat_store]
  obtain e result' st'' where
    c: "cat example_env tensor_out [tensor_A, tensor_B] (length [tensor_A, tensor_B]) 0 True cat_store
         = Some (e, result', st'')"
    and s: "tsizes result' = (tsizes (hd (not_skipped [tensor_A, tensor_B])))
          [nat 0 := sum_list (map (\<lambda>t. tsizes t ! nat 0) (not_skipped [tensor_A, tensor_B]))]"
    by blast
  from s have "tsizes result' = (tsizes tensor_A)[0 := tsizes tensor_A ! 0 + tsizes tensor_B ! 0]"
    unfolding ns by simp
  then have "tsizes result' = [3, 3]"
    by (simp add: tensor_A_def tensor_B_def)
  with c show ?thesis by blast
qed

subsection \<open>The index arithmetic of the kernel\<close>

lemma dot_simps [simp]:
  "dot [] ts = 0" "dot xs [] = 0" "dot (x # xs) (t # ts) = x * t + dot xs ts"
  by (simp_all add: dot_def)

lemma in_box_simps [simp]:
  "in_box [] [] = True" "in_box (x # xs) (d # ds) = (x < d \<and> in_box xs ds)"
  "in_box [] (d # ds) = False" "in_box (x # xs) [] = False"
  by (simp_all add: in_box_def)

lemma in_box_length: "in_box idx S \<Longrightarrow> length idx = length S"
  by (simp add: in_box_def list_all2_lengthD)

lemma length_unravel [simp]: "length (unravel ds L) = length ds"
  by (induction ds) simp_all

lemma length_contiguous_strides [simp]: "length (contiguous_strides ds) = length ds"
  by (induction ds) simp_all

lemma strided_offset_dot:
  "length ds = length ss \<Longrightarrow> strided_offset ds ss L = dot (unravel ds L) ss"
  by (induction ds ss rule: list_induct2) simp_all

lemma unravel_in_box_pos: "\<forall>d\<in>set ds. 0 < d \<Longrightarrow> in_box (unravel ds L) ds"
  by (induction ds) simp_all

lemma prod_list_pos_iff: "0 < prod_list ds \<longleftrightarrow> (\<forall>d\<in>set ds. 0 < (d::nat))"
  by (induction ds) auto

lemma unravel_in_box: "L < prod_list ds \<Longrightarrow> in_box (unravel ds L) ds"
proof -
  assume "L < prod_list ds"
  then have "0 < prod_list ds" by simp
  then show ?thesis by (simp add: unravel_in_box_pos prod_list_pos_iff)
qed

lemma in_box_pos: "in_box idx S \<Longrightarrow> 0 < prod_list S"
  unfolding in_box_def by (induction idx S rule: list_all2_induct) auto

lemma row_major_offset:
  "row_major ds ss \<Longrightarrow> 0 < prod_list ds \<Longrightarrow> strided_offset ds ss L = L mod prod_list ds"
proof (induction ds ss rule: row_major.induct)
  case 1
  then show ?case by simp
next
  case (2 d ds s ss)
  then have ih: "strided_offset ds ss L = L mod prod_list ds" by simp
  show ?case
  proof (cases "d = 1")
    case True
    then show ?thesis by (simp add: ih)
  next
    case False
    with 2 have s: "s = prod_list ds" by simp
    have "L mod (prod_list ds * d) = prod_list ds * (L div prod_list ds mod d) + L mod prod_list ds"
      by (rule mod_mult2_eq)
    then show ?thesis by (simp add: ih s mult.commute)
  qed
qed simp_all

lemma row_major_contiguous_strides: "row_major ds (contiguous_strides ds)"
  by (induction ds) simp_all

lemma dot_unravel_contiguous:
  "L < prod_list ds \<Longrightarrow> dot (unravel ds L) (contiguous_strides ds) = L"
  using row_major_offset[OF row_major_contiguous_strides, of ds L]
  by (simp add: strided_offset_dot)

lemma unravel_inj:
  "L < prod_list ds \<Longrightarrow> L' < prod_list ds \<Longrightarrow> unravel ds L = unravel ds L' \<Longrightarrow> L = L'"
  by (metis dot_unravel_contiguous)

lemma dot_contiguous_less:
  "in_box idx S \<Longrightarrow> dot idx (contiguous_strides S) < prod_list S"
  unfolding in_box_def
proof (induction idx S rule: list_all2_induct)
  case Nil
  then show ?case by simp
next
  case (Cons x xs d ds)
  have "x * prod_list ds + dot xs (contiguous_strides ds) < x * prod_list ds + prod_list ds"
    using Cons.IH by simp
  also have "\<dots> = Suc x * prod_list ds" by simp
  also have "\<dots> \<le> d * prod_list ds"
    using Cons.hyps(1) by (intro mult_le_mono1) simp
  finally show ?case by simp
qed

lemma dot_contiguous_inj:
  "in_box idx S \<Longrightarrow> in_box idx' S \<Longrightarrow>
     dot idx (contiguous_strides S) = dot idx' (contiguous_strides S) \<Longrightarrow> idx = idx'"
proof (induction S arbitrary: idx idx')
  case Nil
  then show ?case by (cases idx; cases idx') simp_all
next
  case (Cons d ds)
  from Cons.prems obtain x xs x' xs' where
    i: "idx = x # xs" "idx' = x' # xs'" "in_box xs ds" "in_box xs' ds"
    by (cases idx; cases idx') simp_all
  let ?P = "prod_list ds"
  have r: "dot xs (contiguous_strides ds) < ?P" "dot xs' (contiguous_strides ds) < ?P"
    using i by (simp_all add: dot_contiguous_less)
  have e: "x * ?P + dot xs (contiguous_strides ds) = x' * ?P + dot xs' (contiguous_strides ds)"
    using Cons.prems(3) i by simp
  have "(x * ?P + dot xs (contiguous_strides ds)) div ?P = x"
       "(x' * ?P + dot xs' (contiguous_strides ds)) div ?P = x'"
       "(x * ?P + dot xs (contiguous_strides ds)) mod ?P = dot xs (contiguous_strides ds)"
       "(x' * ?P + dot xs' (contiguous_strides ds)) mod ?P = dot xs' (contiguous_strides ds)"
    using r by simp_all
  with e have "x = x'" "dot xs (contiguous_strides ds) = dot xs' (contiguous_strides ds)"
    by metis+
  with Cons.IH[OF i(3,4)] i show ?case by simp
qed

lemma dot_update_add:
  "c < length xs \<Longrightarrow> length ts = length xs \<Longrightarrow>
     dot (xs[c := xs ! c + o']) ts = dot xs ts + o' * ts ! c"
proof (induction xs arbitrary: c ts)
  case Nil
  then show ?case by simp
next
  case (Cons x xs)
  then obtain u us where t: "ts = u # us" "length us = length xs" by (cases ts) auto
  show ?case
  proof (cases c)
    case 0
    then show ?thesis using t by (simp add: algebra_simps)
  next
    case (Suc c')
    then show ?thesis using Cons t by simp
  qed
qed

lemma in_box_shift:
  assumes "in_box idx (S[c := m])" "c < length S" "o' + m \<le> S ! c"
  shows "in_box (idx[c := idx ! c + o']) S"
proof -
  have l: "length idx = length S" using assms(1) by (simp add: in_box_length)
  have "\<forall>k<length S. idx ! k < (S[c := m]) ! k"
    using assms(1) l by (simp add: in_box_def list_all2_conv_all_nth)
  then have "\<forall>k<length S. (idx[c := idx ! c + o']) ! k < S ! k"
    using assms(2,3) l by (auto simp: nth_list_update)
  then show ?thesis
    using l by (simp add: in_box_def list_all2_conv_all_nth)
qed

lemma offset_loop_mono: "off \<le> fst (offset_loop s t j li off)"
proof (induction j arbitrary: li off)
  case 0
  then show ?case by simp
next
  case (Suc j)
  have "off \<le> off + (li mod s ! Suc j) * t ! Suc j" by simp
  also have "\<dots> \<le> fst (offset_loop s t j (li div s ! Suc j) (off + (li mod s ! Suc j) * t ! Suc j))"
    by (rule Suc.IH)
  finally show ?case by simp
qed

lemma loop_bridge:
  fixes osz ost :: "IndexType list"
  assumes len: "length ost = length osz" and c: "c < length osz"
    and s: "s = (map unat osz)[c := unat dimSize]" and t: "t = map unat ost"
  shows "j < length osz \<Longrightarrow> (\<forall>i. 1 \<le> i \<and> i \<le> j \<longrightarrow> s ! i \<noteq> 0) \<Longrightarrow>
     fst (offset_loop s t j (unat li) (unat off)) < 2 ^ 32 \<Longrightarrow>
     \<exists>off' li'. CatArrIndexToOffset_loop osz ost dimSize c j li off = Inr (off', li')
        \<and> (unat off', unat li') = offset_loop s t j (unat li) (unat off)"
proof (induction j arbitrary: li off)
  case 0
  then show ?case by simp
next
  case (Suc j)
  let ?i = "Suc j"
  let ?cur = "if ?i = c then dimSize else osz ! ?i"
  have cur: "unat ?cur = s ! ?i"
    using Suc.prems(1) by (simp add: s nth_list_update)
  have nz: "s ! ?i \<noteq> 0" using Suc.prems(2) by simp
  have curnz: "?cur \<noteq> 0"
  proof
    assume z: "?cur = 0"
    have "unat ?cur = 0" by (simp only: z unat_0)
    with cur nz show False by simp
  qed
  let ?next = "li div ?cur"
  let ?idx = "li - ?cur * ?next"
  have idx: "?idx = li mod ?cur" by (rule minus_mult_div_eq_mod)
  have unext: "unat ?next = unat li div s ! ?i" by (simp only: unat_div cur)
  have uidx: "unat ?idx = unat li mod s ! ?i" by (simp only: idx unat_mod cur)
  have ti: "unat (ost ! ?i) = t ! ?i" using Suc.prems(1) len by (simp add: t)
  let ?O = "unat off + (unat li mod s ! ?i) * t ! ?i"
  have bound: "?O < 2 ^ 32"
  proof -
    have "?O \<le> fst (offset_loop s t j (unat li div s ! ?i) ?O)" by (rule offset_loop_mono)
    also have "\<dots> < 2 ^ 32" using Suc.prems(3) by simp
    finally show ?thesis .
  qed
  have prod: "unat (?idx * ost ! ?i) = (unat li mod s ! ?i) * t ! ?i"
  proof -
    have "unat ?idx * unat (ost ! ?i) < 2 ^ LENGTH(32)"
      using bound by (simp add: uidx ti)
    then have "unat (?idx * ost ! ?i) = unat ?idx * unat (ost ! ?i)"
      by (simp only: unat_mult_lem)
    then show ?thesis by (simp only: uidx ti)
  qed
  have sum: "unat (off + ?idx * ost ! ?i) = ?O"
  proof -
    have "unat off + unat (?idx * ost ! ?i) < 2 ^ LENGTH(32)"
      using bound by (simp add: prod)
    then have "unat (off + ?idx * ost ! ?i) = unat off + unat (?idx * ost ! ?i)"
      by (simp only: unat_add_lem)
    then show ?thesis by (simp only: prod)
  qed
  have ih: "\<exists>off' li'. CatArrIndexToOffset_loop osz ost dimSize c j ?next (off + ?idx * ost ! ?i)
                = Inr (off', li')
        \<and> (unat off', unat li') = offset_loop s t j (unat ?next) (unat (off + ?idx * ost ! ?i))"
  proof (rule Suc.IH)
    show "j < length osz" using Suc.prems(1) by simp
    show "\<forall>i. 1 \<le> i \<and> i \<le> j \<longrightarrow> s ! i \<noteq> 0" using Suc.prems(2) by simp
    show "fst (offset_loop s t j (unat ?next) (unat (off + ?idx * ost ! ?i))) < 2 ^ 32"
      using Suc.prems(3) by (simp add: unext sum)
  qed
  show ?case
    using ih curnz by (simp add: Let_def unext sum)
qed

lemma compute_bridge:
  fixes osz ost :: "IndexType list"
  assumes len: "length ost = length osz" and c: "c < length osz" and d: "Dims = length osz"
    and s: "s = (map unat osz)[c := unat dimSize]" and t: "t = map unat ost"
    and nz: "\<forall>i. 1 \<le> i \<and> i < Dims \<longrightarrow> s ! i \<noteq> 0"
    and b: "linear_offset s t (unat tid) < 2 ^ 32"
  shows "\<exists>x. CatArrIndexToOffset_compute Dims osz ost dimSize c tid = Inr x
           \<and> unat x = linear_offset s t (unat tid)"
proof -
  have d0: "0 < Dims" using c d by (cases osz) auto
  have ls: "length s = Dims" by (simp add: s d)
  obtain O' L' where ol: "offset_loop s t (Dims - 1) (unat tid) 0 = (O', L')"
    by (cases "offset_loop s t (Dims - 1) (unat tid) 0") auto
  have tot: "O' + L' * t ! 0 < 2 ^ 32"
    using b unfolding linear_offset_def ls ol by simp
  have "\<exists>off' li'. CatArrIndexToOffset_loop osz ost dimSize c (Dims - 1) tid 0 = Inr (off', li')
        \<and> (unat off', unat li') = offset_loop s t (Dims - 1) (unat tid) (unat (0 :: IndexType))"
  proof (rule loop_bridge[OF len c s t])
    show "Dims - 1 < length osz" using d0 d by simp
    show "\<forall>i. 1 \<le> i \<and> i \<le> Dims - 1 \<longrightarrow> s ! i \<noteq> 0" using nz d0 by auto
    show "fst (offset_loop s t (Dims - 1) (unat tid) (unat (0 :: IndexType))) < 2 ^ 32"
      using tot unfolding unat_0 ol by simp
  qed
  then obtain off' li' where
    r: "CatArrIndexToOffset_loop osz ost dimSize c (Dims - 1) tid 0 = Inr (off', li')"
    and u: "unat off' = O'" "unat li' = L'"
    unfolding unat_0 ol by auto
  have "0 < length ost" using c len by (cases ost) auto
  then have t0: "unat (ost ! 0) = t ! 0" by (simp add: t)
  have p: "unat (li' * ost ! 0) = L' * t ! 0"
  proof -
    have "unat li' * unat (ost ! 0) < 2 ^ LENGTH(32)" using tot by (simp add: u t0)
    then have "unat (li' * ost ! 0) = unat li' * unat (ost ! 0)" by (simp only: unat_mult_lem)
    then show ?thesis by (simp only: u t0)
  qed
  have "unat off' + unat (li' * ost ! 0) < 2 ^ LENGTH(32)" using tot by (simp add: u p)
  then have "unat (off' + li' * ost ! 0) = unat off' + unat (li' * ost ! 0)"
    by (simp only: unat_add_lem)
  then have "unat (off' + li' * ost ! 0) = O' + L' * t ! 0" by (simp only: u p)
  then show ?thesis
    unfolding CatArrIndexToOffset_compute_def r linear_offset_def ls ol by simp
qed

lemma linear_offset_dot:
  assumes "length s = length t" "1 \<le> length s" "length s \<le> 3" "L < prod_list s"
  shows "linear_offset s t L = dot (unravel s L) t"
proof -
  consider a t0 where "s = [a]" "t = [t0]"
    | a b t0 t1 where "s = [a, b]" "t = [t0, t1]"
    | a b c t0 t1 t2 where "s = [a, b, c]" "t = [t0, t1, t2]"
  proof -
    from assms(2,3) have "length s = 1 \<or> length s = 2 \<or> length s = 3" by arith
    then show ?thesis
    proof (elim disjE)
      assume l: "length s = 1"
      then obtain a where "s = [a]" by (cases s) auto
      moreover from l assms(1) obtain t0 where "t = [t0]" by (cases t) auto
      ultimately show ?thesis using that(1) by blast
    next
      assume l: "length s = 2"
      then obtain a b where "s = [a, b]"
        by (cases s; cases "tl s") auto
      moreover from l assms(1) obtain t0 t1 where "t = [t0, t1]"
        by (cases t; cases "tl t") auto
      ultimately show ?thesis using that(2) by blast
    next
      assume l: "length s = 3"
      then obtain a b c where "s = [a, b, c]"
        by (cases s; cases "tl s"; cases "tl (tl s)") auto
      moreover from l assms(1) obtain t0 t1 t2 where "t = [t0, t1, t2]"
        by (cases t; cases "tl t"; cases "tl (tl t)") auto
      ultimately show ?thesis using that(3) by blast
    qed
  qed
  then show ?thesis
  proof cases
    case 1
    then show ?thesis using assms(4) by (simp add: linear_offset_def)
  next
    case 2
    have "L div b < a" using assms(4) 2
      by (simp add: less_mult_imp_div_less)
    then show ?thesis using 2 by (simp add: linear_offset_def)
  next
    case 3
    have "L div c div b < a" using assms(4) 3
      by (simp add: less_mult_imp_div_less mult.assoc)
    moreover have "L div (b * c) = L div c div b"
      by (metis div_mult2_eq mult.commute)
    ultimately show ?thesis using 3
      by (simp add: linear_offset_def numeral_2_eq_2)
  qed
qed

lemma prod_list_update_le:
  "c < length sz \<Longrightarrow> m \<le> sz ! c \<Longrightarrow> prod_list (sz[c := m]) \<le> prod_list (sz :: nat list)"
proof (induction sz arbitrary: c)
  case Nil
  then show ?case by simp
next
  case (Cons d ds)
  show ?case
  proof (cases c)
    case 0
    then show ?thesis using Cons.prems by simp
  next
    case (Suc c')
    then show ?thesis using Cons by simp
  qed
qed

lemma elem_le_prod_list:
  "0 < prod_list ds \<Longrightarrow> d \<in> set ds \<Longrightarrow> d \<le> prod_list (ds :: nat list)"
proof (induction ds)
  case Nil
  then show ?case by simp
next
  case (Cons a ds)
  then have p: "0 < a" "0 < prod_list ds" by (auto intro: Nat.gr0I)
  show ?case
  proof (cases "d = a")
    case True
    then show ?thesis using p by simp
  next
    case False
    with Cons p have "d \<le> prod_list ds" by simp
    also have "\<dots> \<le> a * prod_list ds" using p by simp
    finally show ?thesis by simp
  qed
qed

lemma stride_le_prod_list:
  "0 < prod_list ds \<Longrightarrow> x \<in> set (contiguous_strides ds) \<Longrightarrow> x \<le> prod_list ds"
proof (induction ds)
  case Nil
  then show ?case by simp
next
  case (Cons a ds)
  then have p: "0 < a" "0 < prod_list ds" by (auto intro: Nat.gr0I)
  show ?case
  proof (cases "x = prod_list ds")
    case True
    then show ?thesis using p by simp
  next
    case False
    with Cons p have "x \<le> prod_list ds" by simp
    also have "\<dots> \<le> a * prod_list ds" using p by simp
    finally show ?thesis by simp
  qed
qed

lemma unat_word_of_nat_list:
  "\<forall>x\<in>set xs. x < 2 ^ 32 \<Longrightarrow> map unat (map word_of_nat xs :: IndexType list) = xs"
  by (induction xs) (simp_all add: unat_of_nat)

lemma in_box_widen:
  assumes "in_box idx (S[c := m])" "c < length S" "m \<le> S ! c"
  shows "in_box idx S"
  using in_box_shift[OF assms(1,2), of 0] assms(3) by simp

text \<open>
  The position an element is written to, for a row-major output of at most three
  dimensions with fewer than \<open>2 ^ 32\<close> elements and an input that fits it.
\<close>

lemma compute_contiguous:
  assumes r: "1 \<le> length sz" "length sz \<le> 3" and c: "c < length sz"
    and p: "prod_list sz < 2 ^ 32"
    and f: "off + dimSize \<le> sz ! c"
    and i: "i < prod_list (sz[c := dimSize])"
  shows "\<exists>x. CatArrIndexToOffset_compute (length sz) (map word_of_nat sz)
               (map word_of_nat (contiguous_strides sz)) (word_of_nat dimSize) c (word_of_nat i)
             = Inr x
           \<and> unat x = dot (unravel (sz[c := dimSize]) i) (contiguous_strides sz)
           \<and> in_box (unravel (sz[c := dimSize]) i) sz
           \<and> unat (word_of_nat off * (map word_of_nat (contiguous_strides sz) ! c) + x)
               = dot ((unravel (sz[c := dimSize]) i)
                        [c := unravel (sz[c := dimSize]) i ! c + off]) (contiguous_strides sz)
           \<and> unat (word_of_nat off * (map word_of_nat (contiguous_strides sz) ! c) + x)
               < prod_list sz"
proof -
  let ?s = "sz[c := dimSize]"
  let ?T = "contiguous_strides sz"
  let ?idx = "unravel ?s i"
  have spos: "0 < prod_list ?s" using i by simp
  then have sall: "\<forall>d\<in>set ?s. 0 < d" by (simp only: prod_list_pos_iff)
  have "?s ! c = dimSize" using c by simp
  moreover have "?s ! c \<in> set ?s" using c by (metis length_list_update nth_mem)
  ultimately have dpos: "0 < dimSize" using sall by metis
  then have cpos: "0 < sz ! c" using f by simp
  have szall: "\<forall>d\<in>set sz. 0 < d"
  proof
    fix d assume "d \<in> set sz"
    then obtain k where k: "k < length sz" "sz ! k = d" by (metis in_set_conv_nth)
    show "0 < d"
    proof (cases "k = c")
      case True
      then show ?thesis using cpos k by simp
    next
      case False
      then have "?s ! k = d" using k by simp
      moreover have "?s ! k \<in> set ?s" using k by (metis length_list_update nth_mem)
      ultimately show ?thesis using sall by metis
    qed
  qed
  then have ppos: "0 < prod_list sz" by (simp only: prod_list_pos_iff)
  have szb: "\<forall>d\<in>set sz. d < 2 ^ 32"
    using elem_le_prod_list[OF ppos] p by (meson le_less_trans)
  have tb: "\<forall>x\<in>set ?T. x < 2 ^ 32"
    using stride_le_prod_list[OF ppos] p by (meson le_less_trans)
  have dle: "dimSize \<le> sz ! c" using f by simp
  have "sz ! c \<in> set sz" using c by simp
  then have db: "dimSize < 2 ^ 32" using szb dle by (meson le_less_trans)
  have nle: "prod_list ?s \<le> prod_list sz" using c dle by (rule prod_list_update_le)
  have ib: "i < 2 ^ 32" using i nle p by simp
  have us: "(map unat (map word_of_nat sz :: IndexType list))[c := unat (word_of_nat dimSize :: IndexType)] = ?s"
  proof -
    have "unat (word_of_nat dimSize :: IndexType) = dimSize" using db by (simp add: unat_of_nat)
    then show ?thesis by (simp only: unat_word_of_nat_list[OF szb])
  qed
  have ut: "map unat (map word_of_nat ?T :: IndexType list) = ?T"
    using tb by (rule unat_word_of_nat_list)
  have ui: "unat (word_of_nat i :: IndexType) = i" using ib by (simp add: unat_of_nat)
  have box_s: "in_box ?idx ?s" using i by (rule unravel_in_box)
  have box: "in_box ?idx sz" using box_s c dle by (rule in_box_widen)
  have lo: "linear_offset ?s ?T i = dot ?idx ?T"
    by (rule linear_offset_dot) (use r i in simp_all)
  have lt: "dot ?idx ?T < prod_list sz" using box by (rule dot_contiguous_less)
  have "\<exists>x. CatArrIndexToOffset_compute (length sz) (map word_of_nat sz)
               (map word_of_nat ?T) (word_of_nat dimSize) c (word_of_nat i) = Inr x
           \<and> unat x = linear_offset ?s ?T (unat (word_of_nat i :: IndexType))"
  proof (rule compute_bridge[where s = ?s and t = ?T])
    show "length (map word_of_nat ?T :: IndexType list) = length (map word_of_nat sz :: IndexType list)"
      by simp
    show "c < length (map word_of_nat sz :: IndexType list)" using c by simp
    show "length sz = length (map word_of_nat sz :: IndexType list)" by simp
    show "?s = (map unat (map word_of_nat sz :: IndexType list))[c := unat (word_of_nat dimSize :: IndexType)]"
      by (simp only: us)
    show "?T = map unat (map word_of_nat ?T :: IndexType list)" by (simp only: ut)
    show "\<forall>k. 1 \<le> k \<and> k < length sz \<longrightarrow> ?s ! k \<noteq> 0"
    proof (intro allI impI)
      fix k assume "1 \<le> k \<and> k < length sz"
      then have "?s ! k \<in> set ?s" by (metis length_list_update nth_mem)
      then show "?s ! k \<noteq> 0" using sall by (metis less_numeral_extra(3))
    qed
    show "linear_offset ?s ?T (unat (word_of_nat i :: IndexType)) < 2 ^ 32"
      using lt p unfolding ui lo by simp
  qed
  then obtain x where x: "CatArrIndexToOffset_compute (length sz) (map word_of_nat sz)
               (map word_of_nat ?T) (word_of_nat dimSize) c (word_of_nat i) = Inr x"
    and ux: "unat x = dot ?idx ?T"
    by (auto simp only: ui lo)
  let ?sh = "?idx[c := ?idx ! c + off]"
  have boxsh: "in_box ?sh sz" using box_s c f by (rule in_box_shift)
  have shlt: "dot ?sh ?T < prod_list sz" using boxsh by (rule dot_contiguous_less)
  have sheq: "dot ?sh ?T = dot ?idx ?T + off * ?T ! c"
    by (rule dot_update_add) (use c in simp_all)
  have tc: "?T ! c < 2 ^ 32" using tb c by simp
  have tcpos: "0 < ?T ! c \<or> off = 0 \<or> True" by simp
  have offb: "off < 2 ^ 32" using f \<open>sz ! c \<in> set sz\<close> szb by (meson add_leD1 le_less_trans)
  have uo: "unat (word_of_nat off :: IndexType) = off" using offb by (simp add: unat_of_nat)
  have utc: "unat (map word_of_nat ?T ! c :: IndexType) = ?T ! c"
    using tc c by (simp add: unat_of_nat)
  have m: "unat (word_of_nat off * (map word_of_nat ?T ! c) :: IndexType) = off * ?T ! c"
  proof -
    have "unat (word_of_nat off :: IndexType) * unat (map word_of_nat ?T ! c :: IndexType)
            < 2 ^ LENGTH(32)"
      using shlt p by (simp add: uo utc sheq)
    then have "unat (word_of_nat off * (map word_of_nat ?T ! c) :: IndexType)
          = unat (word_of_nat off :: IndexType) * unat (map word_of_nat ?T ! c :: IndexType)"
      by (simp only: unat_mult_lem)
    then show ?thesis by (simp only: uo utc)
  qed
  have a: "unat (word_of_nat off * (map word_of_nat ?T ! c) + x) = off * ?T ! c + dot ?idx ?T"
  proof -
    have "unat (word_of_nat off * (map word_of_nat ?T ! c) :: IndexType) + unat x < 2 ^ LENGTH(32)"
      using shlt p by (simp add: m ux sheq)
    then have "unat (word_of_nat off * (map word_of_nat ?T ! c) + x)
          = unat (word_of_nat off * (map word_of_nat ?T ! c) :: IndexType) + unat x"
      by (simp only: unat_add_lem)
    then show ?thesis by (simp only: m ux)
  qed
  have fin: "unat (word_of_nat off * (map word_of_nat ?T ! c) + x) = dot ?sh ?T"
    using a sheq by simp
  show ?thesis
    using x ux box fin shlt by auto
qed




subsection \<open>The fast path and the fallback copy the same elements\<close>

lemma in_box_nth: "in_box idx S \<Longrightarrow> i < length S \<Longrightarrow> idx ! i < S ! i"
  by (simp add: in_box_def list_all2_conv_all_nth)

lemma off_of_Suc:
  "k < length ts \<Longrightarrow> off_of c ts (Suc k) = off_of c ts k + tsizes (ts ! k) ! c"
  by (simp add: off_of_def take_Suc_conv_app_nth)

lemma off_of_mono: "k \<le> k' \<Longrightarrow> off_of c ts k \<le> off_of c ts k'"
proof (induction k' arbitrary: k)
  case 0
  then show ?case by simp
next
  case (Suc k')
  show ?case
  proof (cases "k = Suc k'")
    case True
    then show ?thesis by simp
  next
    case False
    with Suc.prems have le: "k \<le> k'" by simp
    have "off_of c ts k' \<le> off_of c ts (Suc k')"
    proof (cases "k' < length ts")
      case True
      then show ?thesis by (simp add: off_of_Suc)
    next
      case False
      then show ?thesis by (simp add: off_of_def)
    qed
    with Suc.IH[OF le] show ?thesis by simp
  qed
qed

lemma off_of_all: "length ts \<le> k \<Longrightarrow> off_of c ts k = sum_list (map (\<lambda>t. tsizes t ! c) ts)"
  by (simp add: off_of_def)

lemma off_fit:
  assumes "cat_setting out sz c ts st0" "k < length ts"
  shows "off_of c ts k + tsizes (ts ! k) ! c \<le> sz ! c"
proof -
  have "off_of c ts k + tsizes (ts ! k) ! c = off_of c ts (Suc k)"
    using assms(2) by (simp add: off_of_Suc)
  also have "\<dots> \<le> off_of c ts (length ts)"
    using assms(2) by (intro off_of_mono) simp
  also have "\<dots> = sum_list (map (\<lambda>t. tsizes t ! c) ts)" by (simp add: off_of_all)
  also have "\<dots> \<le> sz ! c" using assms(1) by (simp add: cat_setting_def)
  finally show ?thesis .
qed

lemma setting_numel:
  assumes "cat_setting out sz c ts st0" "k < length ts"
  shows "numel (ts ! k) = prod_list (sz[c := tsizes (ts ! k) ! c])"
proof -
  have "ts ! k \<in> set ts" using assms(2) by simp
  then have "tsizes (ts ! k) = sz[c := tsizes (ts ! k) ! c]"
    using assms(1) unfolding cat_setting_def by blast
  then show ?thesis unfolding numel_def by metis
qed

lemma pos_shift:
  assumes s: "cat_setting out sz c ts st0" and k: "k < length ts" and L: "L < numel (ts ! k)"
  shows "in_box (unravel (sz[c := tsizes (ts ! k) ! c]) L) (sz[c := tsizes (ts ! k) ! c])"
    and "in_box ((unravel (sz[c := tsizes (ts ! k) ! c]) L)
                   [c := unravel (sz[c := tsizes (ts ! k) ! c]) L ! c + off_of c ts k]) sz"
    and "cat_pos sz c ts k L
           = dot ((unravel (sz[c := tsizes (ts ! k) ! c]) L)
                   [c := unravel (sz[c := tsizes (ts ! k) ! c]) L ! c + off_of c ts k])
                 (contiguous_strides sz)"
    and "cat_pos sz c ts k L < prod_list sz"
proof -
  let ?s = "sz[c := tsizes (ts ! k) ! c]"
  let ?idx = "unravel ?s L"
  let ?sh = "?idx[c := ?idx ! c + off_of c ts k]"
  have c: "c < length sz" using s by (simp add: cat_setting_def)
  have L': "L < prod_list ?s" using L setting_numel[OF s k] by simp
  show b: "in_box ?idx ?s" using L' by (rule unravel_in_box)
  show bs: "in_box ?sh sz" using b c off_fit[OF s k] by (rule in_box_shift)
  have "dot ?sh (contiguous_strides sz)
          = dot ?idx (contiguous_strides sz) + off_of c ts k * contiguous_strides sz ! c"
    by (rule dot_update_add) (use c in simp_all)
  then show e: "cat_pos sz c ts k L = dot ?sh (contiguous_strides sz)"
    by (simp add: cat_pos_def)
  show "cat_pos sz c ts k L < prod_list sz"
    unfolding e using bs by (rule dot_contiguous_less)
qed

lemma pos_inj:
  assumes s: "cat_setting out sz c ts st0"
    and k: "k < length ts" and L: "L < numel (ts ! k)"
    and k': "k' < length ts" and L': "L' < numel (ts ! k')"
    and e: "cat_pos sz c ts k L = cat_pos sz c ts k' L'"
  shows "k = k' \<and> L = L'"
proof -
  let ?s = "sz[c := tsizes (ts ! k) ! c]"
  let ?s' = "sz[c := tsizes (ts ! k') ! c]"
  let ?idx = "unravel ?s L"
  let ?idx' = "unravel ?s' L'"
  let ?sh = "?idx[c := ?idx ! c + off_of c ts k]"
  let ?sh' = "?idx'[c := ?idx' ! c + off_of c ts k']"
  have c: "c < length sz" using s by (simp add: cat_setting_def)
  note p = pos_shift[OF s k L] and p' = pos_shift[OF s k' L']
  have "dot ?sh (contiguous_strides sz) = dot ?sh' (contiguous_strides sz)"
    using e p(3) p'(3) by simp
  from dot_contiguous_inj[OF p(2) p'(2) this] have sh: "?sh = ?sh'" .
  have lc: "c < length ?idx" "c < length ?idx'" using c by simp_all
  have "?sh ! c = ?sh' ! c" using sh by simp
  then have ceq: "?idx ! c + off_of c ts k = ?idx' ! c + off_of c ts k'"
    using lc by simp
  have "?idx ! c < ?s ! c" using p(1) by (rule in_box_nth) (use c in simp)
  then have b: "?idx ! c < tsizes (ts ! k) ! c" using c by simp
  have "?idx' ! c < ?s' ! c" using p'(1) by (rule in_box_nth) (use c in simp)
  then have b': "?idx' ! c < tsizes (ts ! k') ! c" using c by simp
  have keq: "k = k'"
  proof (rule ccontr)
    assume ne: "k \<noteq> k'"
    show False
    proof (cases "k < k'")
      case True
      then have "off_of c ts (Suc k) \<le> off_of c ts k'" by (intro off_of_mono) simp
      then have "off_of c ts k + tsizes (ts ! k) ! c \<le> off_of c ts k'"
        using k by (simp add: off_of_Suc)
      with b ceq show False by simp
    next
      case False
      with ne have "k' < k" by simp
      then have "off_of c ts (Suc k') \<le> off_of c ts k" by (intro off_of_mono) simp
      then have "off_of c ts k' + tsizes (ts ! k') ! c \<le> off_of c ts k"
        using k' by (simp add: off_of_Suc)
      with b' ceq show False by simp
    qed
  qed
  have ic: "?idx ! c = ?idx' ! c" using ceq keq by simp
  have "?idx = ?idx'"
  proof (rule nth_equalityI)
    show "length ?idx = length ?idx'" by simp
    fix i assume i: "i < length ?idx"
    show "?idx ! i = ?idx' ! i"
    proof (cases "i = c")
      case True
      then show ?thesis using ic by simp
    next
      case False
      have "?sh ! i = ?sh' ! i" using sh by simp
      then show ?thesis using False by simp
    qed
  qed
  then have "unravel ?s L = unravel ?s L'" using keq by simp
  moreover have "L < prod_list ?s" using L setting_numel[OF s k] by simp
  moreover have "L' < prod_list ?s" using L' setting_numel[OF s k'] keq by simp
  ultimately have "L = L'" by (rule unravel_inj[rotated 2])
  with keq show ?thesis by simp
qed

lemma write_step:
  assumes s: "cat_setting out sz c ts st0" and i: "cat_inv out sz c ts st0 D st"
    and k: "k < length ts" and L: "L < numel (ts ! k)"
  shows "cat_inv out sz c ts st0 (insert (k, L) D)
           (st(out := (st out)[cat_pos sz c ts k L := st (data_ptr (ts ! k)) ! L]))"
proof -
  let ?p = "cat_pos sz c ts k L"
  let ?st' = "st(out := (st out)[?p := st (data_ptr (ts ! k)) ! L])"
  have D: "D \<subseteq> all_pairs ts" and other: "\<forall>b. b \<noteq> out \<longrightarrow> st b = st0 b"
    and len: "length (st out) = length (st0 out)"
    and dn: "\<forall>k L. (k, L) \<in> D \<longrightarrow> st out ! cat_pos sz c ts k L = st0 (data_ptr (ts ! k)) ! L"
    and rest: "\<forall>p<length (st0 out). (\<forall>k L. (k, L) \<in> D \<longrightarrow> cat_pos sz c ts k L \<noteq> p)
            \<longrightarrow> st out ! p = st0 out ! p"
    using i unfolding cat_inv_def by blast+
  have "ts ! k \<in> set ts" using k by simp
  then have ne: "data_ptr (ts ! k) \<noteq> out" using s unfolding cat_setting_def by blast
  then have rd: "st (data_ptr (ts ! k)) = st0 (data_ptr (ts ! k))" using other by blast
  have plt: "?p < length (st out)"
  proof -
    have "?p < prod_list sz" using s k L by (rule pos_shift(4))
    also have "\<dots> \<le> length (st0 out)" using s by (simp add: cat_setting_def)
    finally show ?thesis using len by simp
  qed
  have a: "insert (k, L) D \<subseteq> all_pairs ts" using D k L by (simp add: all_pairs_def)
  have b: "\<forall>b. b \<noteq> out \<longrightarrow> ?st' b = st0 b" using other by simp
  have c': "length (?st' out) = length (st0 out)" using len by simp
  have d: "\<forall>k' L'. (k', L') \<in> insert (k, L) D
             \<longrightarrow> ?st' out ! cat_pos sz c ts k' L' = st0 (data_ptr (ts ! k')) ! L'"
  proof (intro allI impI)
    fix k' L' assume m: "(k', L') \<in> insert (k, L) D"
    show "?st' out ! cat_pos sz c ts k' L' = st0 (data_ptr (ts ! k')) ! L'"
    proof (cases "cat_pos sz c ts k' L' = ?p")
      case True
      from m D k L have "k' < length ts" "L' < numel (ts ! k')"
        by (auto simp: all_pairs_def)
      from pos_inj[OF s this k L True] have "k' = k" "L' = L" by simp_all
      then show ?thesis using plt rd by simp
    next
      case False
      with m have "(k', L') \<in> D" using False by auto
      then show ?thesis using dn False by simp
    qed
  qed
  have e: "\<forall>p<length (st0 out). (\<forall>k' L'. (k', L') \<in> insert (k, L) D \<longrightarrow> cat_pos sz c ts k' L' \<noteq> p)
            \<longrightarrow> ?st' out ! p = st0 out ! p"
  proof (intro allI impI)
    fix p assume p: "p < length (st0 out)"
      and n: "\<forall>k' L'. (k', L') \<in> insert (k, L) D \<longrightarrow> cat_pos sz c ts k' L' \<noteq> p"
    then have "?p \<noteq> p" by blast
    moreover have "\<forall>k' L'. (k', L') \<in> D \<longrightarrow> cat_pos sz c ts k' L' \<noteq> p" using n by blast
    ultimately show "?st' out ! p = st0 out ! p" using rest p by simp
  qed
  show ?thesis
    unfolding cat_inv_def using a b c' d e by blast
qed

lemma cat_inv_unique:
  assumes "cat_inv out sz c ts st0 D st" "cat_inv out sz c ts st0 D st'"
  shows "st = st'"
proof (rule ext)
  fix b
  show "st b = st' b"
  proof (cases "b = out")
    case False
    then show ?thesis using assms unfolding cat_inv_def by metis
  next
    case True
    have "st out = st' out"
    proof (rule nth_equalityI)
      show "length (st out) = length (st' out)" using assms unfolding cat_inv_def by metis
      fix p assume "p < length (st out)"
      then have p: "p < length (st0 out)" using assms(1) unfolding cat_inv_def by metis
      show "st out ! p = st' out ! p"
      proof (cases "\<exists>k L. (k, L) \<in> D \<and> cat_pos sz c ts k L = p")
        case True
        then obtain k L where "(k, L) \<in> D" "cat_pos sz c ts k L = p" by blast
        then show ?thesis using assms unfolding cat_inv_def by metis
      next
        case False
        then have "\<forall>k L. (k, L) \<in> D \<longrightarrow> cat_pos sz c ts k L \<noteq> p" by blast
        then have "st out ! p = st0 out ! p" "st' out ! p = st0 out ! p"
          using assms p unfolding cat_inv_def by blast+
        then show ?thesis by simp
      qed
    qed
    then show ?thesis using True by simp
  qed
qed

lemma cat_inv_start: "cat_inv out sz c ts st0 {} st0"
  by (simp add: cat_inv_def)

lemma setting_tdim:
  assumes "cat_setting out sz c ts st0" "t \<in> set ts"
  shows "tdim t = length sz" "c < tdim t"
proof -
  have "tsizes t = sz[c := tsizes t ! c]" using assms unfolding cat_setting_def by blast
  then have "length (tsizes t) = length sz" by (metis length_list_update)
  then show "tdim t = length sz" by (simp add: tdim_def)
  then show "c < tdim t" using assms(1) by (simp add: cat_setting_def)
qed

lemma contiguous_source:
  assumes "is_contiguous t" "L < numel t"
  shows "strided_offset (tsizes t) (tstrides t) L = L"
proof -
  have pos: "0 < prod_list (tsizes t)" using assms(2) by (simp add: numel_def)
  then have "row_major (tsizes t) (tstrides t)"
    using assms by (auto simp: is_contiguous_def numel_def)
  from row_major_offset[OF this pos] show ?thesis
    using assms(2) by (simp add: numel_def)
qed

lemma copy_fold:
  assumes s: "cat_setting out sz c ts st0" and k: "k < length ts"
    and ct: "is_contiguous (ts ! k)"
  shows "n \<le> numel (ts ! k) \<Longrightarrow> cat_inv out sz c ts st0 D st \<Longrightarrow>
     cat_inv out sz c ts st0 (D \<union> {(k', L). k' = k \<and> L < n})
       (fold (\<lambda>L st. st(out := (st out)
                 [off_of c ts k * contiguous_strides sz ! c
                    + strided_offset (sz[c := tsizes (ts ! k) ! c]) (contiguous_strides sz) L :=
                    st (data_ptr (ts ! k)) ! strided_offset (tsizes (ts ! k)) (tstrides (ts ! k)) L]))
             [0..<n] st)"
proof (induction n)
  case 0
  then show ?case by simp
next
  case (Suc n)
  let ?f = "\<lambda>L st. st(out := (st out)
                 [off_of c ts k * contiguous_strides sz ! c
                    + strided_offset (sz[c := tsizes (ts ! k) ! c]) (contiguous_strides sz) L :=
                    st (data_ptr (ts ! k)) ! strided_offset (tsizes (ts ! k)) (tstrides (ts ! k)) L])"
  let ?st = "fold ?f [0..<n] st"
  have n: "n < numel (ts ! k)" using Suc.prems(1) by simp
  have ih: "cat_inv out sz c ts st0 (D \<union> {(k', L). k' = k \<and> L < n}) ?st"
  proof (rule Suc.IH)
    show "n \<le> numel (ts ! k)" using Suc.prems(1) by simp
    show "cat_inv out sz c ts st0 D st" by (rule Suc.prems(2))
  qed
  have src: "strided_offset (tsizes (ts ! k)) (tstrides (ts ! k)) n = n"
    using ct n by (rule contiguous_source)
  have dst: "off_of c ts k * contiguous_strides sz ! c
                    + strided_offset (sz[c := tsizes (ts ! k) ! c]) (contiguous_strides sz) n
             = cat_pos sz c ts k n"
    by (simp add: cat_pos_def strided_offset_dot)
  have step: "?f n ?st = ?st(out := (?st out)[cat_pos sz c ts k n := ?st (data_ptr (ts ! k)) ! n])"
    by (simp only: src dst)
  have w: "cat_inv out sz c ts st0 (insert (k, n) (D \<union> {(k', L). k' = k \<and> L < n})) (?f n ?st)"
    unfolding step using s ih k n by (rule write_step)
  have e1: "insert (k, n) (D \<union> {(k', L). k' = k \<and> L < n}) = D \<union> {(k', L). k' = k \<and> L < Suc n}"
    by (auto simp: less_Suc_eq)
  have e2: "fold ?f [0..<Suc n] st = ?f n ?st" by simp
  show ?case unfolding e2 using w unfolding e1 .
qed

lemma fallback_suffix:
  assumes s: "cat_setting out sz c ts st0" and r: "row_major_result result' out sz"
    and df: "\<forall>t\<in>set ts. is_defined t \<and> is_contiguous t"
  shows "base \<le> length ts \<Longrightarrow> cat_inv out sz c ts st0 D st \<Longrightarrow>
     \<exists>st'. narrow_copy_loop result' (int c) (drop base ts) (off_of c ts base) st = Inr st'
        \<and> cat_inv out sz c ts st0
            (D \<union> {(k, L). base \<le> k \<and> k < length ts \<and> L < numel (ts ! k)}) st'"
proof (induction "length ts - base" arbitrary: base D st)
  case 0
  then have b: "base = length ts" by simp
  have e: "{(k, L). base \<le> k \<and> k < length ts \<and> L < numel (ts ! k)} = {}"
    using b by auto
  have "narrow_copy_loop result' (int c) (drop base ts) (off_of c ts base) st = Inr st"
    using b by simp
  then show ?case using 0(3) unfolding e by simp
next
  case (Suc m)
  then have k: "base < length ts" by simp
  let ?t = "ts ! base"
  have tin: "?t \<in> set ts" using k by simp
  have dr: "drop base ts = ?t # drop (Suc base) ts" using k by (simp add: Cons_nth_drop_Suc)
  have ns: "\<not> should_skip ?t" using df tin by (simp add: should_skip_def)
  have c: "c < length sz" using s by (simp add: cat_setting_def)
  note td = setting_tdim[OF s tin]
  have sz: "tensor_size ?t (int c) = Inr (tsizes ?t ! c)"
    using td by (simp add: tensor_size_def Let_def)
  have fit: "off_of c ts base + tsizes ?t ! c \<le> sz ! c" using s k by (rule off_fit)
  have rs: "tsizes result' = sz" "tstrides result' = contiguous_strides sz" "data_ptr result' = out"
    using r by (simp_all add: row_major_result_def)
  have nr: "narrow result' (int c) (off_of c ts base) (tsizes ?t ! c)
      = Inr (result'\<lparr>tsizes := sz[c := tsizes ?t ! c]\<rparr>,
             off_of c ts base * contiguous_strides sz ! c)"
    using c fit by (simp add: narrow_def Let_def tdim_def rs)
  let ?st1 = "copy_into (result'\<lparr>tsizes := sz[c := tsizes ?t ! c]\<rparr>,
                 off_of c ts base * contiguous_strides sz ! c) ?t st"
  have ci: "cat_inv out sz c ts st0 (D \<union> {(k', L). k' = base \<and> L < numel ?t}) ?st1"
  proof -
    have "cat_inv out sz c ts st0 (D \<union> {(k', L). k' = base \<and> L < numel ?t})
       (fold (\<lambda>L st. st(out := (st out)
                 [off_of c ts base * contiguous_strides sz ! c
                    + strided_offset (sz[c := tsizes ?t ! c]) (contiguous_strides sz) L :=
                    st (data_ptr ?t) ! strided_offset (tsizes ?t) (tstrides ?t) L]))
             [0..<numel ?t] st)"
      by (rule copy_fold[OF s k]) (use df tin Suc.prems in simp_all)
    then show ?thesis by (simp add: copy_into_def rs)
  qed
  have m: "m = length ts - Suc base" using Suc.hyps(2) by simp
  have "Suc base \<le> length ts" using k by simp
  from Suc.hyps(1)[OF m this ci] obtain st' where
    st': "narrow_copy_loop result' (int c) (drop (Suc base) ts) (off_of c ts (Suc base)) ?st1 = Inr st'"
    "cat_inv out sz c ts st0
       (D \<union> {(k', L). k' = base \<and> L < numel ?t}
          \<union> {(k, L). Suc base \<le> k \<and> k < length ts \<and> L < numel (ts ! k)}) st'"
    by blast
  have un: "D \<union> {(k', L). k' = base \<and> L < numel ?t}
          \<union> {(k, L). Suc base \<le> k \<and> k < length ts \<and> L < numel (ts ! k)}
        = D \<union> {(k, L). base \<le> k \<and> k < length ts \<and> L < numel (ts ! k)}"
    using k by (auto simp: Suc_le_eq le_less)
  have "narrow_copy_loop result' (int c) (drop base ts) (off_of c ts base) st = Inr st'"
    using st'(1) ns sz nr k by (simp add: dr off_of_Suc)
  then show ?case using st'(2) un by auto
qed

lemma fallback_all:
  assumes s: "cat_setting out sz c ts st0" and r: "row_major_result result' out sz"
    and df: "\<forall>t\<in>set ts. is_defined t \<and> is_contiguous t"
  shows "\<exists>st'. narrow_copy_loop result' (int c) ts 0 st0 = Inr st'
        \<and> cat_inv out sz c ts st0 (all_pairs ts) st'"
proof -
  from fallback_suffix[OF s r df, of 0 "{}" st0] cat_inv_start[of out sz c ts st0]
  obtain st' where "narrow_copy_loop result' (int c) (drop 0 ts) (off_of c ts 0) st0 = Inr st'"
    "cat_inv out sz c ts st0 ({} \<union> {(k, L). 0 \<le> k \<and> k < length ts \<and> L < numel (ts ! k)}) st'"
    by blast
  then show ?thesis by (simp add: off_of_def all_pairs_def)
qed

lemma setting_bounds:
  assumes s: "cat_setting out sz c ts st0" and k: "k < length ts"
  shows "numel (ts ! k) \<le> prod_list sz" "numel (ts ! k) < 2 ^ 32"
proof -
  have c: "c < length sz" and p: "prod_list sz < 2 ^ 32" using s by (simp_all add: cat_setting_def)
  have "tsizes (ts ! k) ! c \<le> sz ! c" using off_fit[OF s k] by simp
  with c have "prod_list (sz[c := tsizes (ts ! k) ! c]) \<le> prod_list sz"
    by (rule prod_list_update_le)
  then show "numel (ts ! k) \<le> prod_list sz" using setting_numel[OF s k] by simp
  then show "numel (ts ! k) < 2 ^ 32" using p by simp
qed

lemma element_step:
  assumes s: "cat_setting out sz c ts st0" and i: "cat_inv out sz c ts st0 D st"
    and k: "k < length ts" and L: "L < numel (ts ! k)"
  shows "\<exists>st'. copy_element (length sz) out
             \<lparr>os_outputSize = map word_of_nat sz,
              os_outputStride = map word_of_nat (contiguous_strides sz)\<rparr>
             c (data_ptr (ts ! k)) (word_of_nat (tsizes (ts ! k) ! c))
             (word_of_nat (off_of c ts k) * word_of_nat (contiguous_strides sz ! c))
             (word_of_nat L) st = Inr st'
          \<and> cat_inv out sz c ts st0 (insert (k, L) D) st'"
proof -
  let ?T = "contiguous_strides sz"
  let ?d = "tsizes (ts ! k) ! c"
  have r: "1 \<le> length sz" "length sz \<le> 3" and c: "c < length sz" and p: "prod_list sz < 2 ^ 32"
    and cap: "prod_list sz \<le> length (st0 out)"
    using s by (simp_all add: cat_setting_def)
  have L': "L < prod_list (sz[c := ?d])" using L setting_numel[OF s k] by simp
  from compute_contiguous[OF r c p off_fit[OF s k] L'] obtain x where
    x: "CatArrIndexToOffset_compute (length sz) (map word_of_nat sz) (map word_of_nat ?T)
          (word_of_nat ?d) c (word_of_nat L) = Inr x"
    and px: "unat (word_of_nat (off_of c ts k) * (map word_of_nat ?T ! c) + x)
        = dot ((unravel (sz[c := ?d]) L)[c := unravel (sz[c := ?d]) L ! c + off_of c ts k]) ?T"
    by blast
  have nm: "(map word_of_nat ?T ! c :: IndexType) = word_of_nat (?T ! c)" using c by simp
  have pos: "unat (word_of_nat (off_of c ts k) * word_of_nat (?T ! c) + x) = cat_pos sz c ts k L"
    using px pos_shift(3)[OF s k L] by (simp only: nm)
  have "ts ! k \<in> set ts" using k by simp
  then have ne: "data_ptr (ts ! k) \<noteq> out" and ln: "numel (ts ! k) \<le> length (st0 (data_ptr (ts ! k)))"
    using s unfolding cat_setting_def by blast+
  have other: "\<forall>b. b \<noteq> out \<longrightarrow> st b = st0 b" and len: "length (st out) = length (st0 out)"
    using i unfolding cat_inv_def by blast+
  have rd: "st (data_ptr (ts ! k)) = st0 (data_ptr (ts ! k))" using other ne by blast
  have "L < 2 ^ 32" using L setting_bounds(2)[OF s k] by simp
  then have uL: "unat (word_of_nat L :: IndexType) = L" by (simp add: unat_of_nat)
  have b1: "unat (word_of_nat L :: IndexType) < length (st (data_ptr (ts ! k)))"
    using L ln by (simp only: uL rd)
  have "cat_pos sz c ts k L < prod_list sz" using s k L by (rule pos_shift(4))
  then have b2: "unat (word_of_nat (off_of c ts k) * word_of_nat (?T ! c) + x) < length (st out)"
    using cap len by (simp only: pos)
  have "copy_element (length sz) out
             \<lparr>os_outputSize = map word_of_nat sz, os_outputStride = map word_of_nat ?T\<rparr>
             c (data_ptr (ts ! k)) (word_of_nat ?d)
             (word_of_nat (off_of c ts k) * word_of_nat (?T ! c)) (word_of_nat L) st
        = Inr (st(out := (st out)[cat_pos sz c ts k L := st (data_ptr (ts ! k)) ! L]))"
    using b1 b2 by (simp add: copy_element_def x pos uL)
  moreover have "cat_inv out sz c ts st0 (insert (k, L) D)
       (st(out := (st out)[cat_pos sz c ts k L := st (data_ptr (ts ! k)) ! L]))"
    using s i k L by (rule write_step)
  ultimately show ?thesis by blast
qed

lemma stride_set_step:
  assumes "0 < G" "L0 < n"
  shows "insert (k :: nat, L0) {(k', L). k' = k \<and> L0 + G \<le> L \<and> L < n \<and> G dvd (L - (L0 + G))}
       = {(k', L). k' = k \<and> L0 \<le> L \<and> L < n \<and> G dvd (L - L0 :: nat)}"
proof -
  have a: "G dvd (L - (L0 + G)) \<longleftrightarrow> G dvd (L - L0)" if "L0 + G \<le> L" for L
  proof -
    have "L - L0 = (L - (L0 + G)) + G" using that by simp
    then show ?thesis by (metis dvd_add_triv_right_iff)
  qed
  have b: "L0 + G \<le> L" if "L0 \<le> L" "L \<noteq> L0" "G dvd (L - L0)" for L
  proof -
    have "0 < L - L0" using that by simp
    with that(3) have "G \<le> L - L0" by (rule dvd_imp_le)
    then show ?thesis using that(1) by simp
  qed
  have key: "(L = L0 \<or> (L0 + G \<le> L \<and> L < n \<and> G dvd (L - (L0 + G))))
           = (L0 \<le> L \<and> L < n \<and> G dvd (L - L0))" for L
  proof (cases "L = L0")
    case True
    then show ?thesis using assms(2) by simp
  next
    case False
    show ?thesis
    proof (cases "L0 + G \<le> L")
      case True
      then show ?thesis using a[OF True] False by auto
    next
      case n: False
      then show ?thesis using b[of L] False by auto
    qed
  qed
  show ?thesis
  proof (rule set_eqI)
    fix x :: "nat \<times> nat"
    obtain k' L where x: "x = (k', L)" by (cases x)
    show "x \<in> insert (k, L0) {(k', L). k' = k \<and> L0 + G \<le> L \<and> L < n \<and> G dvd (L - (L0 + G))}
       \<longleftrightarrow> x \<in> {(k', L). k' = k \<and> L0 \<le> L \<and> L < n \<and> G dvd (L - L0)}"
      unfolding x using key[of L] by auto
  qed
qed

lemma loop_step:
  assumes s: "cat_setting out sz c ts st0" and k: "k < length ts"
    and G: "0 < G" "numel (ts ! k) + G \<le> 2 ^ 32"
  shows "L0 < 2 ^ 32 \<Longrightarrow> cat_inv out sz c ts st0 D st \<Longrightarrow>
     \<exists>st'. batched_copy_loop
             (copy_element (length sz) out
                \<lparr>os_outputSize = map word_of_nat sz,
                 os_outputStride = map word_of_nat (contiguous_strides sz)\<rparr>
                c (data_ptr (ts ! k)) (word_of_nat (tsizes (ts ! k) ! c))
                (word_of_nat (off_of c ts k) * word_of_nat (contiguous_strides sz ! c)))
             (word_of_nat G) (word_of_nat (numel (ts ! k))) (word_of_nat L0 :: IndexType) st
           = Some (Inr st')
        \<and> cat_inv out sz c ts st0
            (D \<union> {(k', L). k' = k \<and> L0 \<le> L \<and> L < numel (ts ! k) \<and> G dvd (L - L0)}) st'"
proof (induction "numel (ts ! k) - L0" arbitrary: L0 D st rule: less_induct)
  case less
  let ?n = "numel (ts ! k)"
  let ?body = "copy_element (length sz) out
                \<lparr>os_outputSize = map word_of_nat sz,
                 os_outputStride = map word_of_nat (contiguous_strides sz)\<rparr>
                c (data_ptr (ts ! k)) (word_of_nat (tsizes (ts ! k) ! c))
                (word_of_nat (off_of c ts k) * word_of_nat (contiguous_strides sz ! c))"
  have nb: "?n < 2 ^ 32" using s k by (rule setting_bounds(2))
  have un: "unat (word_of_nat ?n :: IndexType) = ?n" using nb by (simp add: unat_of_nat)
  have uL: "unat (word_of_nat L0 :: IndexType) = L0" using less.prems(1) by (simp add: unat_of_nat)
  have cmp: "((word_of_nat L0 :: IndexType) < word_of_nat ?n) = (L0 < ?n)"
    by (simp only: word_less_nat_alt un uL)
  show ?case
  proof (cases "L0 < ?n")
    case False
    have e: "{(k', L). k' = k \<and> L0 \<le> L \<and> L < ?n \<and> G dvd (L - L0)} = {}"
      using False by auto
    have "batched_copy_loop ?body (word_of_nat G) (word_of_nat ?n) (word_of_nat L0 :: IndexType) st
            = Some (Inr st)"
      using False by (subst batched_copy_loop.simps) (simp only: cmp if_False)
    moreover have "cat_inv out sz c ts st0 (D \<union> {}) st" using less.prems(2) by simp
    ultimately show ?thesis unfolding e by (intro exI[of _ st] conjI)
  next
    case True
    from element_step[OF s less.prems(2) k True] obtain st1 where
      b: "?body (word_of_nat L0) st = Inr st1"
      and i1: "cat_inv out sz c ts st0 (insert (k, L0) D) st1"
      by blast
    have nx: "(word_of_nat L0 + word_of_nat G :: IndexType) = word_of_nat (L0 + G)" by simp
    have lt: "L0 + G < 2 ^ 32" using True G(2) by simp
    have dec: "?n - (L0 + G) < ?n - L0" using True G(1) by simp
    from less.hyps[OF dec lt i1] obtain st' where
      r: "batched_copy_loop ?body (word_of_nat G) (word_of_nat ?n) (word_of_nat (L0 + G) :: IndexType) st1
            = Some (Inr st')"
      and i': "cat_inv out sz c ts st0
            (insert (k, L0) D \<union> {(k', L). k' = k \<and> L0 + G \<le> L \<and> L < ?n \<and> G dvd (L - (L0 + G))}) st'"
      by blast
    have se: "insert (k, L0) D \<union> {(k', L). k' = k \<and> L0 + G \<le> L \<and> L < ?n \<and> G dvd (L - (L0 + G))}
         = D \<union> {(k', L). k' = k \<and> L0 \<le> L \<and> L < ?n \<and> G dvd (L - L0)}"
      using stride_set_step[OF G(1) True, of k] by (simp only: Un_insert_left Un_insert_right[symmetric])
    have "batched_copy_loop ?body (word_of_nat G) (word_of_nat ?n) (word_of_nat L0 :: IndexType) st
            = Some (Inr st')"
      using True by (subst batched_copy_loop.simps) (simp only: cmp if_True b sum.case nx r)
    then show ?thesis using i'[unfolded se] by (intro exI[of _ st'] conjI)
  qed
qed

lemma unat32: "x < 2 ^ 32 \<Longrightarrow> unat (word_of_nat x :: IndexType) = x"
  by (simp add: unat_of_nat)

lemma mod_eq_iff_dvd_diff:
  assumes "t0 < (G :: nat)"
  shows "(L mod G = t0) = (t0 \<le> L \<and> G dvd (L - t0))"
proof
  assume m: "L mod G = t0"
  have "t0 \<le> L" using m by (metis mod_less_eq_dividend)
  moreover have "L - L mod G = G * (L div G)" by (rule minus_mod_eq_mult_div)
  then have "G dvd (L - t0)" using m by simp
  ultimately show "t0 \<le> L \<and> G dvd (L - t0)" by simp
next
  assume a: "t0 \<le> L \<and> G dvd (L - t0)"
  then obtain q where q: "L - t0 = G * q" by (auto simp: dvd_def)
  then have "L = t0 + G * q" using a by simp
  then have "L mod G = t0 mod G" by (metis mod_mult_self2)
  then show "L mod G = t0" using assms by simp
qed

lemma item_step:
  assumes s: "cat_setting out sz c ts st0" and k: "base + inp < length ts"
    and m: "ms ! inp = meta_of c ts (base + inp)"
    and w: "wg < ngroups" "wi < wg_size"
    and G: "numel (ts ! (base + inp)) + ngroups * wg_size \<le> 2 ^ 32"
    and i: "cat_inv out sz c ts st0 D st"
  shows "\<exists>st'. CatArrayBatchedCopy_item (length sz) out ms
             \<lparr>os_outputSize = map word_of_nat sz,
              os_outputStride = map word_of_nat (contiguous_strides sz)\<rparr>
             c (word_of_nat (contiguous_strides sz ! c)) ngroups wg_size (wg, wi, inp) st
           = Some (Inr st')
        \<and> cat_inv out sz c ts st0
            (D \<union> {(k', L). k' = base + inp \<and> L < numel (ts ! (base + inp))
                     \<and> L mod (ngroups * wg_size) = wg * wg_size + wi}) st'"
proof -
  let ?k = "base + inp"
  let ?n = "numel (ts ! ?k)"
  let ?G = "ngroups * wg_size"
  let ?t0 = "wg * wg_size + wi"
  let ?os = "\<lparr>os_outputSize = map word_of_nat sz,
              os_outputStride = map word_of_nat (contiguous_strides sz)\<rparr>"
  have "?t0 < wg * wg_size + wg_size" using w(2) by simp
  also have "\<dots> = Suc wg * wg_size" by simp
  also have "\<dots> \<le> ?G" using w(1) by (intro mult_le_mono1) simp
  finally have t0G: "?t0 < ?G" .
  have Gpos: "0 < ?G" using w by simp
  have t0b: "?t0 < 2 ^ 32" using t0G G by simp
  have nb: "?n < 2 ^ 32" using s k by (rule setting_bounds(2))
  have un: "unat (word_of_nat ?n :: IndexType) = ?n" using nb by (rule unat32)
  have ut: "unat (word_of_nat ?t0 :: IndexType) = ?t0" using t0b by (rule unat32)
  have tid: "(word_of_nat wg * word_of_nat wg_size + word_of_nat wi :: IndexType) = word_of_nat ?t0"
    by simp
  have str: "(word_of_nat ngroups * word_of_nat wg_size :: IndexType) = word_of_nat ?G" by simp
  have cmp: "((word_of_nat ?t0 :: IndexType) \<ge> word_of_nat ?n) = (?n \<le> ?t0)"
    by (simp only: word_le_nat_alt un ut)
  have fld: "in_nElements (ms ! inp) = word_of_nat ?n" "in_input (ms ! inp) = data_ptr (ts ! ?k)"
    "in_offset (ms ! inp) = word_of_nat (off_of c ts ?k)"
    "in_dimSize (ms ! inp) = word_of_nat (tsizes (ts ! ?k) ! c)"
    by (simp_all add: m meta_of_def)
  have unf: "CatArrayBatchedCopy_item (length sz) out ms ?os c
               (word_of_nat (contiguous_strides sz ! c)) ngroups wg_size (wg, wi, inp) st
      = (if ?n \<le> ?t0 then Some (Inr st)
         else batched_copy_loop
                (copy_element (length sz) out ?os c (data_ptr (ts ! ?k))
                   (word_of_nat (tsizes (ts ! ?k) ! c))
                   (word_of_nat (off_of c ts ?k) * word_of_nat (contiguous_strides sz ! c)))
                (word_of_nat ?G) (word_of_nat ?n) (word_of_nat ?t0) st)"
    unfolding CatArrayBatchedCopy_item_def Let_def prod.case tid str fld cmp ..
  show ?thesis
  proof (cases "?n \<le> ?t0")
    case True
    have e: "{(k', L). k' = ?k \<and> L < ?n \<and> L mod ?G = ?t0} = {}"
    proof -
      have "L mod ?G \<noteq> ?t0" if "L < ?n" for L
      proof -
        have "L < ?G" using that True t0G by simp
        then have "L mod ?G = L" by simp
        then show ?thesis using that True by simp
      qed
      then show ?thesis by auto
    qed
    have "CatArrayBatchedCopy_item (length sz) out ms ?os c
               (word_of_nat (contiguous_strides sz ! c)) ngroups wg_size (wg, wi, inp) st
           = Some (Inr st)"
      unfolding unf using True by simp
    moreover have "cat_inv out sz c ts st0 (D \<union> {}) st" using i by simp
    ultimately show ?thesis unfolding e by (intro exI[of _ st] conjI)
  next
    case False
    from loop_step[OF s k Gpos G t0b i] obtain st' where
      r: "batched_copy_loop
             (copy_element (length sz) out ?os c (data_ptr (ts ! ?k))
                (word_of_nat (tsizes (ts ! ?k) ! c))
                (word_of_nat (off_of c ts ?k) * word_of_nat (contiguous_strides sz ! c)))
             (word_of_nat ?G) (word_of_nat ?n) (word_of_nat ?t0 :: IndexType) st
           = Some (Inr st')"
      and i': "cat_inv out sz c ts st0
            (D \<union> {(k', L). k' = ?k \<and> ?t0 \<le> L \<and> L < ?n \<and> ?G dvd (L - ?t0)}) st'"
      by blast
    have se: "{(k', L). k' = ?k \<and> ?t0 \<le> L \<and> L < ?n \<and> ?G dvd (L - ?t0)}
            = {(k', L). k' = ?k \<and> L < ?n \<and> L mod ?G = ?t0}"
      using mod_eq_iff_dvd_diff[OF t0G] by auto
    have "CatArrayBatchedCopy_item (length sz) out ms ?os c
               (word_of_nat (contiguous_strides sz ! c)) ngroups wg_size (wg, wi, inp) st
           = Some (Inr st')"
      unfolding unf using False r by simp
    then show ?thesis using i'[unfolded se] by (intro exI[of _ st'] conjI)
  qed
qed

lemma launch_step:
  assumes s: "cat_setting out sz c ts st0"
    and m: "\<forall>inp<bc. base + inp < length ts \<and> ms ! inp = meta_of c ts (base + inp)
               \<and> numel (ts ! (base + inp)) + ngroups * wg_size \<le> 2 ^ 32"
  shows "set ws \<subseteq> set (work_items ngroups wg_size bc) \<Longrightarrow> cat_inv out sz c ts st0 D st \<Longrightarrow>
     \<exists>st'. parallel_for_opt
             (CatArrayBatchedCopy_item (length sz) out ms
                \<lparr>os_outputSize = map word_of_nat sz,
                 os_outputStride = map word_of_nat (contiguous_strides sz)\<rparr>
                c (word_of_nat (contiguous_strides sz ! c)) ngroups wg_size) ws st
           = Some (Inr st')
        \<and> cat_inv out sz c ts st0 (D \<union> (\<Union>w\<in>set ws. item_pairs ts base ngroups wg_size w)) st'"
proof (induction ws arbitrary: D st)
  case Nil
  then show ?case by simp
next
  case (Cons w ws)
  obtain wg wi inp where w: "w = (wg, wi, inp)" by (cases w) auto
  have "w \<in> set (work_items ngroups wg_size bc)" using Cons.prems(1) by simp
  then have b: "wg < ngroups" "wi < wg_size" "inp < bc" by (simp_all add: w work_items_set)
  from m b(3) have mi: "base + inp < length ts" "ms ! inp = meta_of c ts (base + inp)"
    "numel (ts ! (base + inp)) + ngroups * wg_size \<le> 2 ^ 32" by blast+
  from item_step[OF s mi(1,2) b(1,2) mi(3) Cons.prems(2)] obtain st1 where
    r1: "CatArrayBatchedCopy_item (length sz) out ms
             \<lparr>os_outputSize = map word_of_nat sz,
              os_outputStride = map word_of_nat (contiguous_strides sz)\<rparr>
             c (word_of_nat (contiguous_strides sz ! c)) ngroups wg_size w st = Some (Inr st1)"
    and i1: "cat_inv out sz c ts st0 (D \<union> item_pairs ts base ngroups wg_size w) st1"
    unfolding w item_pairs_def prod.case by blast
  have sub: "set ws \<subseteq> set (work_items ngroups wg_size bc)" using Cons.prems(1) by simp
  from Cons.IH[OF sub i1] obtain st' where
    r: "parallel_for_opt
             (CatArrayBatchedCopy_item (length sz) out ms
                \<lparr>os_outputSize = map word_of_nat sz,
                 os_outputStride = map word_of_nat (contiguous_strides sz)\<rparr>
                c (word_of_nat (contiguous_strides sz ! c)) ngroups wg_size) ws st1
           = Some (Inr st')"
    and i': "cat_inv out sz c ts st0
        (D \<union> item_pairs ts base ngroups wg_size w
           \<union> (\<Union>w\<in>set ws. item_pairs ts base ngroups wg_size w)) st'"
    by blast
  have se: "D \<union> item_pairs ts base ngroups wg_size w
           \<union> (\<Union>w\<in>set ws. item_pairs ts base ngroups wg_size w)
         = D \<union> (\<Union>w\<in>set (w # ws). item_pairs ts base ngroups wg_size w)"
    by auto
  have "parallel_for_opt
             (CatArrayBatchedCopy_item (length sz) out ms
                \<lparr>os_outputSize = map word_of_nat sz,
                 os_outputStride = map word_of_nat (contiguous_strides sz)\<rparr>
                c (word_of_nat (contiguous_strides sz ! c)) ngroups wg_size) (w # ws) st
           = Some (Inr st')"
    using r1 r by simp
  then show ?case using i'[unfolded se] by (intro exI[of _ st'] conjI)
qed

lemma coverage:
  assumes "0 < wg_size" "0 < ngroups"
  shows "(\<Union>w\<in>set (work_items ngroups wg_size bc). item_pairs ts base ngroups wg_size w)
       = {(k, L). base \<le> k \<and> k < base + bc \<and> L < numel (ts ! k)}"
proof (intro set_eqI iffI)
  fix x
  assume "x \<in> (\<Union>w\<in>set (work_items ngroups wg_size bc). item_pairs ts base ngroups wg_size w)"
  then obtain w where w: "w \<in> set (work_items ngroups wg_size bc)"
    and x: "x \<in> item_pairs ts base ngroups wg_size w" by blast
  obtain wg wi inp where weq: "w = (wg, wi, inp)" by (cases w) auto
  from w have "inp < bc" by (simp add: weq work_items_set)
  then show "x \<in> {(k, L). base \<le> k \<and> k < base + bc \<and> L < numel (ts ! k)}"
    using x by (auto simp: weq item_pairs_def)
next
  fix x
  assume "x \<in> {(k, L). base \<le> k \<and> k < base + bc \<and> L < numel (ts ! k)}"
  then obtain k L where x: "x = (k, L)" and k: "base \<le> k" "k < base + bc" and L: "L < numel (ts ! k)"
    by auto
  let ?G = "ngroups * wg_size"
  let ?r = "L mod ?G"
  let ?w = "(?r div wg_size, ?r mod wg_size, k - base)"
  have Gpos: "0 < ?G" using assms by simp
  have "?r < ?G" using Gpos by simp
  then have "?r div wg_size < ngroups"
    by (simp add: less_mult_imp_div_less)
  moreover have "?r mod wg_size < wg_size" using assms(1) by simp
  moreover have "k - base < bc" using k by simp
  ultimately have win: "?w \<in> set (work_items ngroups wg_size bc)"
    by (simp add: work_items_set)
  have "?r div wg_size * wg_size + ?r mod wg_size = ?r" by simp
  then have "x \<in> item_pairs ts base ngroups wg_size ?w"
    using k L by (simp add: x item_pairs_def)
  with win show "x \<in> (\<Union>w\<in>set (work_items ngroups wg_size bc). item_pairs ts base ngroups wg_size w)"
    by blast
qed

lemma kernel_step:
  assumes s: "cat_setting out sz c ts st0"
    and m: "\<forall>inp<bc. base + inp < length ts \<and> ms ! inp = meta_of c ts (base + inp)
               \<and> numel (ts ! (base + inp)) + numCU' * numWI' div 2 \<le> 2 ^ 32"
    and dev: "0 < numWI'" "0 < numCU' * numWI' div 2" "(numCU' * numWI' div 2) mod numWI' = 0"
    and ro: "set (reord (work_items (numCU' * numWI' div 2 div numWI') numWI' bc))
             = set (work_items (numCU' * numWI' div 2 div numWI') numWI' bc)"
    and i: "cat_inv out sz c ts st0 D st"
  shows "\<exists>st'. CatArrayBatchedCopy (length sz) numCU' numWI' reord out ms
             \<lparr>os_outputSize = map word_of_nat sz,
              os_outputStride = map word_of_nat (contiguous_strides sz)\<rparr>
             c (word_of_nat (contiguous_strides sz ! c)) bc st
           = Some (Inr st')
        \<and> cat_inv out sz c ts st0
            (D \<union> {(k, L). base \<le> k \<and> k < base + bc \<and> L < numel (ts ! k)}) st'"
proof -
  let ?G = "numCU' * numWI' div 2"
  let ?ng = "?G div numWI'"
  have dv: "?ng * numWI' = ?G" using dev(3) by auto
  have ngpos: "0 < ?ng" using dev(2) dv by (metis gr0I mult_is_0)
  have m': "\<forall>inp<bc. base + inp < length ts \<and> ms ! inp = meta_of c ts (base + inp)
               \<and> numel (ts ! (base + inp)) + ?ng * numWI' \<le> 2 ^ 32"
    using m by (simp only: dv)
  have sub: "set (reord (work_items ?ng numWI' bc)) \<subseteq> set (work_items ?ng numWI' bc)"
    using ro by simp
  from launch_step[OF s m' sub i] obtain st' where
    r: "parallel_for_opt
             (CatArrayBatchedCopy_item (length sz) out ms
                \<lparr>os_outputSize = map word_of_nat sz,
                 os_outputStride = map word_of_nat (contiguous_strides sz)\<rparr>
                c (word_of_nat (contiguous_strides sz ! c)) ?ng numWI')
             (reord (work_items ?ng numWI' bc)) st
           = Some (Inr st')"
    and i': "cat_inv out sz c ts st0
        (D \<union> (\<Union>w\<in>set (reord (work_items ?ng numWI' bc)). item_pairs ts base ?ng numWI' w)) st'"
    by blast
  have se: "(\<Union>w\<in>set (reord (work_items ?ng numWI' bc)). item_pairs ts base ?ng numWI' w)
          = {(k, L). base \<le> k \<and> k < base + bc \<and> L < numel (ts ! k)}"
    unfolding ro using dev(1) ngpos by (rule coverage)
  have "CatArrayBatchedCopy (length sz) numCU' numWI' reord out ms
             \<lparr>os_outputSize = map word_of_nat sz,
              os_outputStride = map word_of_nat (contiguous_strides sz)\<rparr>
             c (word_of_nat (contiguous_strides sz ! c)) bc st
           = Some (Inr st')"
    using dev r by (simp add: CatArrayBatchedCopy_def Let_def)
  then show ?thesis using i'[unfolded se] by (intro exI[of _ st'] conjI)
qed

lemma fill_meta:
  assumes "\<forall>t\<in>set ts. c < tdim t"
  shows "base + n \<le> length ts \<Longrightarrow>
     fill_stackInputs (int c) (take n (drop base ts)) (off_of c ts base)
       = Inr (map (meta_of c ts) [base..<base + n], off_of c ts (base + n))"
proof (induction n arbitrary: base)
  case 0
  then show ?case by simp
next
  case (Suc n)
  then have b: "base < length ts" by simp
  have tk: "take (Suc n) (drop base ts) = ts ! base # take n (drop (Suc base) ts)"
    using b by (simp add: Cons_nth_drop_Suc[symmetric])
  have "ts ! base \<in> set ts" using b by simp
  then have "c < tdim (ts ! base)" using assms by blast
  then have sz: "tensor_size (ts ! base) (int c) = Inr (tsizes (ts ! base) ! c)"
    by (simp add: tensor_size_def Let_def)
  have ih: "fill_stackInputs (int c) (take n (drop (Suc base) ts)) (off_of c ts (Suc base))
       = Inr (map (meta_of c ts) [Suc base..<Suc base + n], off_of c ts (Suc base + n))"
    by (rule Suc.IH) (use Suc.prems in simp)
  have up: "[base..<base + Suc n] = base # [Suc base..<Suc base + n]"
    by (simp add: upt_conv_Cons)
  show ?case
    unfolding tk up
    using ih b by (simp add: sz off_of_Suc meta_of_def)
qed

lemma batches_step:
  assumes s: "cat_setting out sz c ts st0"
    and dev: "0 < numWI env" "0 < numCU env * numWI env div 2"
      "(numCU env * numWI env div 2) mod numWI env = 0"
    and ro: "\<forall>n ws. set (reorder env n ws) = set ws"
    and nb: "\<forall>t\<in>set ts. numel t + numCU env * numWI env div 2 \<le> 2 ^ 32"
  shows "base \<le> length ts \<Longrightarrow> cat_inv out sz c ts st0 D st \<Longrightarrow>
     \<exists>st'. parallel_cat_batches env out
             \<lparr>os_outputSize = map word_of_nat sz,
              os_outputStride = map word_of_nat (contiguous_strides sz)\<rparr>
             (int c) (length sz) launch (drop base ts) (off_of c ts base) st
           = Some (Inr st')
        \<and> cat_inv out sz c ts st0
            (D \<union> {(k, L). base \<le> k \<and> k < length ts \<and> L < numel (ts ! k)}) st'"
proof (induction "length ts - base" arbitrary: base launch D st rule: less_induct)
  case less
  let ?os = "\<lparr>os_outputSize = map word_of_nat sz,
              os_outputStride = map word_of_nat (contiguous_strides sz)\<rparr>"
  let ?B = CAT_ARRAY_BATCH_SIZE
  show ?case
  proof (cases "base = length ts")
    case True
    have e: "{(k, L). base \<le> k \<and> k < length ts \<and> L < numel (ts ! k)} = {}"
      using True by auto
    have "parallel_cat_batches env out ?os (int c) (length sz) launch (drop base ts)
            (off_of c ts base) st = Some (Inr st)"
      using True by (subst parallel_cat_batches.simps) simp
    moreover have "cat_inv out sz c ts st0 (D \<union> {}) st" using less.prems(2) by simp
    ultimately show ?thesis unfolding e by (intro exI[of _ st] conjI)
  next
    case False
    then have b: "base < length ts" using less.prems(1) by simp
    let ?n = "min ?B (length ts - base)"
    have npos: "0 < ?n" using b by (simp add: CAT_ARRAY_BATCH_SIZE_def)
    have "base + min B' (length ts - base) \<le> length ts" for B' :: nat
      using b by arith
    then have fitn: "base + ?n \<le> length ts" .
    have "take B' (drop base ts) = take (min B' (length ts - base)) (drop base ts)" for B'
      by (cases "B' \<le> length ts - base") (simp_all add: min_def)
    then have tk: "take ?B (drop base ts) = take ?n (drop base ts)" .
    have td: "\<forall>t\<in>set ts. c < tdim t" using setting_tdim(2)[OF s] by blast
    have fill: "fill_stackInputs (int c) (take ?B (drop base ts)) (off_of c ts base)
       = Inr (map (meta_of c ts) [base..<base + ?n], off_of c ts (base + ?n))"
      unfolding tk using td fitn by (rule fill_meta)
    let ?ms = "map (meta_of c ts) [base..<base + ?n]"
    have lms: "length ?ms = ?n" by simp
    have r: "1 \<le> length sz" "length sz \<le> 3" and c: "c < length sz"
      using s by (simp_all add: cat_setting_def)
    have nd: "length sz = 1 \<or> length sz = 2 \<or> length sz = 3" using r by arith
    have m: "\<forall>inp<?n. base + inp < length ts \<and> ?ms ! inp = meta_of c ts (base + inp)
               \<and> numel (ts ! (base + inp)) + numCU env * numWI env div 2 \<le> 2 ^ 32"
    proof (intro allI impI)
      fix inp assume i: "inp < ?n"
      then have l: "base + inp < length ts" using fitn by arith
      then have "ts ! (base + inp) \<in> set ts" by simp
      then have "numel (ts ! (base + inp)) + numCU env * numWI env div 2 \<le> 2 ^ 32"
        using nb by blast
      moreover have "?ms ! inp = meta_of c ts (base + inp)" using i by simp
      ultimately show "base + inp < length ts \<and> ?ms ! inp = meta_of c ts (base + inp)
               \<and> numel (ts ! (base + inp)) + numCU env * numWI env div 2 \<le> 2 ^ 32"
        using l by simp
    qed
    have ro': "set (reorder env launch
                 (work_items (numCU env * numWI env div 2 div numWI env) (numWI env) ?n))
             = set (work_items (numCU env * numWI env div 2 div numWI env) (numWI env) ?n)"
      using ro by blast
    from kernel_step[where ms = ?ms and base = base and bc = ?n and reord = "reorder env launch"
          and numCU' = "numCU env" and numWI' = "numWI env", OF s m dev ro' less.prems(2)]
    obtain st1 where
      k1: "CatArrayBatchedCopy (length sz) (numCU env) (numWI env) (reorder env launch) out ?ms ?os
             c (word_of_nat (contiguous_strides sz ! c)) ?n st = Some (Inr st1)"
      and i1: "cat_inv out sz c ts st0
            (D \<union> {(k, L). base \<le> k \<and> k < base + ?n \<and> L < numel (ts ! k)}) st1"
      by blast
    have dec: "length ts - (base + ?n) < length ts - base" using b npos fitn by arith
    from less.hyps[OF dec fitn i1, of "Suc launch"] obtain st' where
      r': "parallel_cat_batches env out ?os (int c) (length sz) (Suc launch) (drop (base + ?n) ts)
             (off_of c ts (base + ?n)) st1 = Some (Inr st')"
      and i': "cat_inv out sz c ts st0
            (D \<union> {(k, L). base \<le> k \<and> k < base + ?n \<and> L < numel (ts ! k)}
               \<union> {(k, L). base + ?n \<le> k \<and> k < length ts \<and> L < numel (ts ! k)}) st'"
      by blast
    have se: "D \<union> {(k, L). base \<le> k \<and> k < base + ?n \<and> L < numel (ts ! k)}
               \<union> {(k, L). base + ?n \<le> k \<and> k < length ts \<and> L < numel (ts ! k)}
            = D \<union> {(k, L). base \<le> k \<and> k < length ts \<and> L < numel (ts ! k)}"
      using fitn by auto
    have dr: "drop ?B (drop base ts) = drop (base + ?n) ts"
    proof (cases "?B \<le> length ts - base")
      case True
      then show ?thesis by (simp add: add.commute min_def)
    next
      case False
      then show ?thesis by simp
    qed
    have ne: "drop base ts \<noteq> []" using b by simp
    have st: "os_outputStride ?os ! nat (int c) = word_of_nat (contiguous_strides sz ! c)"
      using c by simp
    have "parallel_cat_batches env out ?os (int c) (length sz) launch (drop base ts)
            (off_of c ts base) st = Some (Inr st')"
      apply (subst parallel_cat_batches.simps)
      apply (simp only: ne if_False fill sum.case prod.case nd if_True lms st nat_int dr)
      using c k1 r' by simp
    then show ?thesis using i'[unfolded se] by (intro exI[of _ st'] conjI)
  qed
qed

lemma fast_all:
  assumes s: "cat_setting out sz c ts st0" and r: "row_major_result result' out sz"
    and dev: "0 < numWI env" "0 < numCU env * numWI env div 2"
      "(numCU env * numWI env div 2) mod numWI env = 0"
    and ro: "\<forall>n ws. set (reorder env n ws) = set ws"
    and nb: "\<forall>t\<in>set ts. numel t + numCU env * numWI env div 2 \<le> 2 ^ 32"
  shows "\<exists>st'. parallel_cat env result' ts (int c) (length sz) st0 = Some (Inr st')
        \<and> cat_inv out sz c ts st0 (all_pairs ts) st'"
proof -
  from batches_step[OF s dev ro nb, of 0 "{}" st0 0] cat_inv_start[of out sz c ts st0]
  obtain st' where
    b: "parallel_cat_batches env out
             \<lparr>os_outputSize = map word_of_nat sz,
              os_outputStride = map word_of_nat (contiguous_strides sz)\<rparr>
             (int c) (length sz) 0 (drop 0 ts) (off_of c ts 0) st0 = Some (Inr st')"
    and i: "cat_inv out sz c ts st0
            ({} \<union> {(k, L). 0 \<le> k \<and> k < length ts \<and> L < numel (ts ! k)}) st'"
    by blast
  have rs: "tsizes result' = sz" "tstrides result' = contiguous_strides sz" "data_ptr result' = out"
    using r by (simp_all add: row_major_result_def)
  have l3: "length sz \<le> 3" using s by (simp add: cat_setting_def)
  have "parallel_cat env result' ts (int c) (length sz) st0 = Some (Inr st')"
    using b l3 by (simp add: parallel_cat_def Let_def CAT_ARRAY_MAX_INPUT_DIMS_def tdim_def rs
        off_of_def)
  moreover have "cat_inv out sz c ts st0 (all_pairs ts) st'"
    using i by (simp add: all_pairs_def)
  ultimately show ?thesis by blast
qed

lemma fast_equals_fallback:
  assumes s: "cat_setting out sz c ts st0" and r: "row_major_result result' out sz"
    and df: "\<forall>t\<in>set ts. is_defined t \<and> is_contiguous t"
    and dev: "0 < numWI env" "0 < numCU env * numWI env div 2"
      "(numCU env * numWI env div 2) mod numWI env = 0"
    and ro: "\<forall>n ws. set (reorder env n ws) = set ws"
    and nb: "\<forall>t\<in>set ts. numel t + numCU env * numWI env div 2 \<le> 2 ^ 32"
  shows "\<exists>st'. parallel_cat env result' ts (int c) (length sz) st0 = Some (Inr st')
        \<and> narrow_copy_loop result' (int c) ts 0 st0 = Inr st'"
proof -
  from fast_all[OF s r dev ro nb] obtain st1 where
    a: "parallel_cat env result' ts (int c) (length sz) st0 = Some (Inr st1)"
       "cat_inv out sz c ts st0 (all_pairs ts) st1" by blast
  from fallback_all[OF s r df] obtain st2 where
    b: "narrow_copy_loop result' (int c) ts 0 st0 = Inr st2"
       "cat_inv out sz c ts st0 (all_pairs ts) st2" by blast
  from cat_inv_unique[OF a(2) b(2)] have "st1 = st2" .
  with a(1) b(1) show ?thesis by simp
qed

lemma format_strides_small: "length sz \<le> 3 \<Longrightarrow> format_strides fmt sz = contiguous_strides sz"
  by (auto simp: format_strides_def split: MemoryFormat.splits list.splits)

lemma cat_prepare_resized:
  assumes "cat_prepare env result inputs numInputs dimension st
             = Inr (Some (result', st', hs, nDims))"
  shows "data_ptr result' = data_ptr result"
    and "\<exists>fmt. tstrides result' = format_strides fmt (tsizes result')"
    and "st' = st(data_ptr result := st (data_ptr result)
                 @ replicate (prod_list (tsizes result') - length (st (data_ptr result))) (uninit env))"
    and "hs = fst (scan_inputs (take numInputs inputs))"
  using assms
  by (auto simp: cat_prepare_def Let_def resize_format_def
           split: if_splits sum.splits prod.splits)

lemma cat_prepare_shapes:
  assumes p: "cat_prepare env result inputs (length inputs) dimension st = Inr r"
    and ne: "not_skipped inputs \<noteq> []"
    and df: "\<forall>t\<in>set inputs. \<not> is_defined t \<longrightarrow> should_skip t"
  shows "\<forall>t\<in>set (not_skipped inputs). tdim t = tdim (hd (not_skipped inputs))
           \<and> (\<forall>k<tdim t. k \<noteq> nat dimension
                 \<longrightarrow> tsizes t ! k = tsizes (hd (not_skipped inputs)) ! k)"
proof -
  let ?ns = "not_skipped inputs"
  let ?last = "last ?ns"
  let ?first = "hd ?ns"
  have last_in: "?last \<in> set ?ns" and first_in: "?first \<in> set ?ns"
    using ne by auto
  then have "?last \<in> set inputs" "\<not> should_skip ?last"
    by (auto simp: not_skipped_def)
  with df have def: "is_defined ?last" by blast
  have scan: "scan_inputs inputs = (\<exists>t\<in>set inputs. should_skip t, tdim ?last, ?last)"
    using ne by (simp add: scan_inputs_eq)
  from p have dim0: "0 \<le> dimension"
    by (auto simp: cat_prepare_def scan def split: sum.splits if_splits)
  from p obtain csum where
    sl: "shape_loop ?last dimension inputs 0 = Inr csum"
    by (auto simp: cat_prepare_def scan def Let_def split: sum.splits if_splits prod.splits)
  from shape_loop_Inr[OF sl dim0] have
    chk: "\<forall>t\<in>set ?ns. check_shape_except_dim ?last t dimension = Inr () \<and> nat dimension < tdim t"
    by auto
  have rel: "tdim ?last = tdim t \<and> (\<forall>k<tdim ?last. int k \<noteq> dimension \<longrightarrow> tsizes ?last ! k = tsizes t ! k)"
    if "t \<in> set ?ns" for t
  proof -
    from chk that have "check_shape_except_dim ?last t dimension = Inr ()" by simp
    then show ?thesis by (rule check_shape_Inr)
  qed
  show ?thesis
  proof
    fix t assume t: "t \<in> set ?ns"
    from rel[OF t] have t1: "tdim ?last = tdim t"
      and t2: "\<forall>k<tdim ?last. int k \<noteq> dimension \<longrightarrow> tsizes ?last ! k = tsizes t ! k" by simp_all
    from rel[OF first_in] have f1: "tdim ?last = tdim ?first"
      and f2: "\<forall>k<tdim ?last. int k \<noteq> dimension \<longrightarrow> tsizes ?last ! k = tsizes ?first ! k"
      by simp_all
    have "tsizes t ! k = tsizes ?first ! k" if k: "k < tdim t" "k \<noteq> nat dimension" for k
    proof -
      have "int k \<noteq> dimension" using k(2) dim0 by auto
      moreover have "k < tdim ?last" using k(1) t1 by simp
      ultimately have "tsizes ?last ! k = tsizes t ! k" "tsizes ?last ! k = tsizes ?first ! k"
        using t2 f2 by simp_all
      then show ?thesis by simp
    qed
    then show "tdim t = tdim ?first
           \<and> (\<forall>k<tdim t. k \<noteq> nat dimension \<longrightarrow> tsizes t ! k = tsizes ?first ! k)"
      using t1 f1 by simp
  qed
qed

text \<open>
  C2. When the validation of \<open>cat\<close> has passed and left the resized output, the
  conditions of the fast path hold (more than one input, no skipped input, an output
  of at most three dimensions, output and inputs indexable in 32 bits, every input
  contiguous), every input is defined, lies in a buffer other than the output's and
  that buffer holds its elements, a tensor that is indexable in 32 bits leaves room
  for the grid stride, and the device accepts the launch and runs every work-item of
  it, in any order: then \<open>parallel_cat\<close> and the fallback loop both return without an
  error and leave the same store, and so does \<open>cat\<close> whether or not it is told that
  all types agree.
\<close>

theorem fast_path_equals_fallback:
  assumes prep: "cat_prepare env result inputs (length inputs) dimension st
                   = Inr (Some (result', st', hs, nDims))"
    and elig: "length inputs > 1" "\<not> hs" "tdim result' \<le> CAT_ARRAY_MAX_INPUT_DIMS"
      "canUse32BitIndexMath env result'"
      "list_all (\<lambda>t. \<not> is_defined t \<or> is_contiguous t) inputs"
      "list_all (canUse32BitIndexMath env) inputs"
    and fw: "\<forall>t. canUse32BitIndexMath env t
               \<longrightarrow> numel t + numCU env * numWI env div 2 \<le> 2 ^ 32"
    and dev: "0 < numWI env" "0 < numCU env * numWI env div 2"
      "(numCU env * numWI env div 2) mod numWI env = 0"
      "\<forall>n ws. set (reorder env n ws) = set ws"
    and mem: "\<forall>t\<in>set inputs. is_defined t \<and> data_ptr t \<noteq> data_ptr result
                \<and> numel t \<le> length (st (data_ptr t))"
  shows "\<exists>st''. parallel_cat env result' inputs dimension nDims st' = Some (Inr st'')
           \<and> narrow_copy_loop result' dimension inputs 0 st' = Inr st''
           \<and> cat env result inputs (length inputs) dimension True st = Some (None, result', st'')
           \<and> cat env result inputs (length inputs) dimension False st = Some (None, result', st'')"
proof -
  let ?out = "data_ptr result"
  let ?c = "nat dimension"
  let ?sz = "tsizes result'"
  have nsk: "\<forall>t\<in>set inputs. \<not> should_skip t" using mem by (simp add: should_skip_def)
  then have ns: "not_skipped inputs = inputs" by (simp add: not_skipped_def)
  have ne: "not_skipped inputs \<noteq> []" using elig(1) ns by auto
  have df: "\<forall>t\<in>set inputs. \<not> is_defined t \<longrightarrow> should_skip t" using mem by blast
  from cat_prepare_shape[OF prep ne df] have
    nd: "nDims = tdim (hd inputs)" and d0: "0 \<le> dimension" and dlt: "?c < tdim (hd inputs)"
    and shape: "?sz = (tsizes (hd inputs))[?c := sum_list (map (\<lambda>t. tsizes t ! ?c) inputs)]"
    unfolding ns by auto
  from cat_prepare_shapes[OF prep ne df] have
    shapes: "\<forall>t\<in>set inputs. tdim t = tdim (hd inputs)
           \<and> (\<forall>k<tdim t. k \<noteq> ?c \<longrightarrow> tsizes t ! k = tsizes (hd inputs) ! k)"
    unfolding ns .
  note rz = cat_prepare_resized[OF prep]
  have lsz: "length ?sz = tdim (hd inputs)" by (simp add: shape tdim_def)
  have l3: "length ?sz \<le> 3" using elig(3) by (simp add: tdim_def CAT_ARRAY_MAX_INPUT_DIMS_def)
  from rz(2) have str: "tstrides result' = contiguous_strides ?sz"
    using format_strides_small[OF l3] by auto
  have rmr: "row_major_result result' ?out ?sz"
    by (simp add: row_major_result_def str rz(1))
  have c: "?c < length ?sz" using dlt lsz by simp
  have Gpos: "0 < numCU env * numWI env div 2" by (rule dev(2))
  have "numel result' + numCU env * numWI env div 2 \<le> 2 ^ 32" using fw elig(4) by blast
  then have p32: "prod_list ?sz < 2 ^ 32" using Gpos by (simp add: numel_def)
  have cap: "prod_list ?sz \<le> length (st' ?out)" by (subst rz(3)) simp
  have szc: "?sz ! ?c = sum_list (map (\<lambda>t. tsizes t ! ?c) inputs)"
    using dlt by (simp add: shape tdim_def)
  have each: "tsizes t = ?sz[?c := tsizes t ! ?c] \<and> data_ptr t \<noteq> ?out
            \<and> numel t \<le> length (st' (data_ptr t))" if t: "t \<in> set inputs" for t
  proof -
    from shapes t have td: "tdim t = tdim (hd inputs)"
      and ag: "\<forall>k<tdim t. k \<noteq> ?c \<longrightarrow> tsizes t ! k = tsizes (hd inputs) ! k" by blast+
    have "tsizes t = ?sz[?c := tsizes t ! ?c]"
    proof (rule nth_equalityI)
      show "length (tsizes t) = length (?sz[?c := tsizes t ! ?c])"
        using td lsz by (simp add: tdim_def)
      fix k assume "k < length (tsizes t)"
      then have k: "k < tdim t" by (simp add: tdim_def)
      show "tsizes t ! k = ?sz[?c := tsizes t ! ?c] ! k"
      proof (cases "k = ?c")
        case True
        then show ?thesis using c by simp
      next
        case False
        then have "?sz[?c := tsizes t ! ?c] ! k = tsizes (hd inputs) ! k"
          by (simp add: shape)
        then show ?thesis using ag k False by simp
      qed
    qed
    moreover have "data_ptr t \<noteq> ?out" "numel t \<le> length (st (data_ptr t))"
      using mem t by blast+
    moreover from this have "st' (data_ptr t) = st (data_ptr t)" by (subst rz(3)) simp
    ultimately show ?thesis by simp
  qed
  have setting: "cat_setting ?out ?sz ?c inputs st'"
    unfolding cat_setting_def using c l3 p32 cap szc each by auto
  have dfc: "\<forall>t\<in>set inputs. is_defined t \<and> is_contiguous t"
    using mem elig(5) by (auto simp: list_all_iff)
  have nb: "\<forall>t\<in>set inputs. numel t + numCU env * numWI env div 2 \<le> 2 ^ 32"
    using fw elig(6) by (auto simp: list_all_iff)
  have dim: "int ?c = dimension" using d0 by simp
  have ndl: "nDims = length ?sz" using nd lsz by simp
  from fast_equals_fallback[OF setting rmr dfc dev(1,2,3,4) nb] obtain st'' where
    f: "parallel_cat env result' inputs dimension nDims st' = Some (Inr st'')"
    and g: "narrow_copy_loop result' dimension inputs 0 st' = Inr st''"
    unfolding dim ndl by blast
  have a: "cat env result inputs (length inputs) dimension True st = Some (None, result', st'')"
    using prep elig f by (simp add: cat_def Let_def)
  have b: "cat env result inputs (length inputs) dimension False st = Some (None, result', st'')"
    using prep g by (simp add: cat_def Let_def)
  show ?thesis using f g a b by blast
qed

theorem fast_path_equals_fallback_witness:
  "\<exists>result' st''.
       cat example_env tensor_out [tensor_A, tensor_B] (length [tensor_A, tensor_B]) 0 True cat_store
         = Some (None, result', st'')
     \<and> cat example_env tensor_out [tensor_A, tensor_B] (length [tensor_A, tensor_B]) 0 False cat_store
         = Some (None, result', st'')"
proof -
  have p: "map_sum id (map_option (\<lambda>(r, s, hs, n). (r, s 0, s 1, s 2, hs, n)))
       (cat_prepare example_env tensor_out [tensor_A, tensor_B] (length [tensor_A, tensor_B]) 0 cat_store)
     = Inr (Some (tensor_out\<lparr>tsizes := [3, 3], tstrides := [3, 1]\<rparr>,
              [0, 0, 0, 0, 0, 0, 0, 0, 0], [1, 2, 3, 4, 5, 6], [7, 8, 9], False, 2))"
    by code_simp
  then obtain result' st' hs nDims where
    prep: "cat_prepare example_env tensor_out [tensor_A, tensor_B] (length [tensor_A, tensor_B]) 0 cat_store
             = Inr (Some (result', st', hs, nDims))"
    and r: "result' = tensor_out\<lparr>tsizes := [3, 3], tstrides := [3, 1]\<rparr>" and hs: "\<not> hs"
    by (cases "cat_prepare example_env tensor_out [tensor_A, tensor_B] (length [tensor_A, tensor_B]) 0 cat_store")
       (auto split: option.splits)
  have e: "length [tensor_A, tensor_B] > 1" "tdim result' \<le> CAT_ARRAY_MAX_INPUT_DIMS"
    "canUse32BitIndexMath example_env result'"
    "list_all (\<lambda>t. \<not> is_defined t \<or> is_contiguous t) [tensor_A, tensor_B]"
    "list_all (canUse32BitIndexMath example_env) [tensor_A, tensor_B]"
    by (simp_all add: r tdim_def CAT_ARRAY_MAX_INPUT_DIMS_def example_env_def numel_def
          tensor_A_def tensor_B_def tensor_out_def is_contiguous_def)
  have fw: "\<forall>t. canUse32BitIndexMath example_env t
               \<longrightarrow> numel t + numCU example_env * numWI example_env div 2 \<le> 2 ^ 32"
    by (simp add: example_env_def)
  have dev: "0 < numWI example_env" "0 < numCU example_env * numWI example_env div 2"
      "(numCU example_env * numWI example_env div 2) mod numWI example_env = 0"
      "\<forall>n ws. set (reorder example_env n ws) = set ws"
    by (simp_all add: example_env_def)
  have mem: "\<forall>t\<in>set [tensor_A, tensor_B]. is_defined t \<and> data_ptr t \<noteq> data_ptr tensor_out
                \<and> numel t \<le> length (cat_store (data_ptr t))"
    by (simp add: tensor_A_def tensor_B_def tensor_out_def cat_store_def numel_def)
  from fast_path_equals_fallback[OF prep e(1) hs e(2-5) fw dev mem]
  show ?thesis by blast
qed

text \<open>
  Without the condition on the buffers the two paths differ: an output that is a
  strided view of the buffer of the second input passes the validation with the status
  \<open>TOO_HARD\<close>; the fallback copies the first input over the second before it reads
  it, and the kernel, whose work-items run in reverse order here, copies the second
  input first.
\<close>

theorem fast_path_differs_when_output_shares_input_buffer:
  "get_overlap_status strided_env every_second tensor_C = OverlapTooHard
   \<and> get_overlap_status strided_env every_second head2 = OverlapTooHard
   \<and> data_ptr head2 = data_ptr every_second
   \<and> is_contiguous tensor_C \<and> is_contiguous head2
   \<and> map_option (\<lambda>(e, r, s). (e, tsizes r, s 0))
        (cat strided_env every_second [tensor_C, head2] 2 0 True shared_store)
      = Some (None, [4], [7, 8, 1, 2])
   \<and> map_option (\<lambda>(e, r, s). (e, tsizes r, s 0))
        (cat strided_env every_second [tensor_C, head2] 2 0 False shared_store)
      = Some (None, [4], [7, 8, 7, 8])"
proof -
  have a: "get_overlap_status strided_env every_second tensor_C = OverlapTooHard"
    "get_overlap_status strided_env every_second head2 = OverlapTooHard"
    "data_ptr head2 = data_ptr every_second"
    "is_contiguous tensor_C" "is_contiguous head2"
    by code_simp+
  have b: "map_option (\<lambda>(e, r, s). (e, tsizes r, s 0))
        (cat strided_env every_second [tensor_C, head2] 2 0 True shared_store)
      = Some (None, [4], [7, 8, 1, 2])"
    by code_simp
  have c: "map_option (\<lambda>(e, r, s). (e, tsizes r, s 0))
        (cat strided_env every_second [tensor_C, head2] 2 0 False shared_store)
      = Some (None, [4], [7, 8, 7, 8])"
    by code_simp
  show ?thesis using a b c by (intro conjI)
qed

end
